theory Spec2Isabelle
  imports Main "HOL-Library.Word"
begin

unbundle bit_operations_syntax

section \<open>Memory of a 64-bit target\<close>

text \<open>
  The allocator works on raw bytes: block headers, footers and the free-list links
  are \<^verbatim>\<open>size_t\<close> words stored inside the heap area, and the same bytes are
  user payload while a block is allocated. Memory is therefore a map from 64-bit
  addresses to bytes; a word is read and written as eight little-endian bytes.
  Pointers and \<^verbatim>\<open>size_t\<close> values are 64-bit words, so that every addition
  and subtraction of the source wraps as it does there. \<^verbatim>\<open>NULL\<close> is 0.
\<close>

type_synonym addr = "64 word"
type_synonym byte = "8 word"
type_synonym memory = "addr \<Rightarrow> byte"

definition load64 :: "memory \<Rightarrow> addr \<Rightarrow> 64 word" where
  "load64 m a =
     ucast (m a) OR push_bit 8 (ucast (m (a + 1))) OR push_bit 16 (ucast (m (a + 2)))
     OR push_bit 24 (ucast (m (a + 3))) OR push_bit 32 (ucast (m (a + 4)))
     OR push_bit 40 (ucast (m (a + 5))) OR push_bit 48 (ucast (m (a + 6)))
     OR push_bit 56 (ucast (m (a + 7)))"

definition store64 :: "memory \<Rightarrow> addr \<Rightarrow> 64 word \<Rightarrow> memory" where
  "store64 m a v =
     (\<lambda>x. if x - a < 8 then ucast (drop_bit (8 * unat (x - a)) v) else m x)"

text \<open>
  \<^verbatim>\<open>memcpy\<close> and \<^verbatim>\<open>memset\<close> of the C library. Writing through
  \<^verbatim>\<open>NULL\<close> is undefined in C and traps on the targets this allocator runs on;
  the model makes it a fault. A length of 0 touches nothing. The copy reads all
  source bytes from the memory before the call (source and destination never
  overlap in \<^verbatim>\<open>mm_realloc\<close>).
\<close>

datatype fault = Segfault

definition memcpy :: "memory \<Rightarrow> addr \<Rightarrow> addr \<Rightarrow> 64 word \<Rightarrow> fault + memory" where
  "memcpy m dst src n =
     (if n \<noteq> 0 \<and> (dst = 0 \<or> src = 0) then Inl Segfault
      else Inr (\<lambda>x. if x - dst < n then m (src + (x - dst)) else m x))"

definition memset :: "memory \<Rightarrow> addr \<Rightarrow> byte \<Rightarrow> 64 word \<Rightarrow> fault + memory" where
  "memset m dst c n =
     (if n \<noteq> 0 \<and> dst = 0 then Inl Segfault
      else Inr (\<lambda>x. if x - dst < n then c else m x))"

section \<open>Allocator state\<close>

text \<open>
  The three globals of the allocator (\<^verbatim>\<open>head\<close>, \<^verbatim>\<open>mm_heap_first\<close>,
  \<^verbatim>\<open>mm_heap_last\<close>), the heap bytes, and the state of the region provider:
  the current end of the region and the address it may not grow past.
\<close>

record state =
  mem :: memory
  head :: addr
  mm_heap_first :: addr
  mm_heap_last :: addr
  mem_brk :: addr
  mem_max_addr :: addr

text \<open>
  Modelled from the spec: \<^verbatim>\<open>mem_sbrk\<close> of \<^verbatim>\<open>memlib.h\<close>, the region
  provider, which the allocator only declares by its header. It grows the region by
  exactly the given number of bytes and returns the old end, or reports exhaustion
  (\<^verbatim>\<open>(void *) -1\<close> in the source, \<open>None\<close> here) and leaves the region as it is.
\<close>

definition mem_sbrk :: "state \<Rightarrow> 64 word \<Rightarrow> (addr \<times> state) option" where
  "mem_sbrk s incr =
     (if unat (mem_brk s) + unat incr \<le> unat (mem_max_addr s)
      then Some (mem_brk s, s\<lparr>mem_brk := mem_brk s + incr\<rparr>)
      else None)"

section \<open>The allocator\<close>

definition ALIGNMENT :: "64 word" where
  "ALIGNMENT = 2 * 8"

text \<open>\<^verbatim>\<open>sizeof(block_t)\<close>, which is also the offset of the payload in a block.\<close>

definition sizeof_block :: "64 word" where
  "sizeof_block = 8"

definition sizeof_footer :: "64 word" where
  "sizeof_footer = 8"

text \<open>Offsets of the fields \<^verbatim>\<open>prev\<close> and \<^verbatim>\<open>next\<close> in \<^verbatim>\<open>free_block_t\<close>.\<close>

definition prev_of :: "memory \<Rightarrow> addr \<Rightarrow> addr" where
  "prev_of m b = load64 m (b + 8)"

definition next_of :: "memory \<Rightarrow> addr \<Rightarrow> addr" where
  "next_of m b = load64 m (b + 16)"

definition set_prev :: "memory \<Rightarrow> addr \<Rightarrow> addr \<Rightarrow> memory" where
  "set_prev m b p = store64 m (b + 8) p"

definition set_next :: "memory \<Rightarrow> addr \<Rightarrow> addr \<Rightarrow> memory" where
  "set_next m b p = store64 m (b + 16) p"

definition add_block :: "state \<Rightarrow> addr \<Rightarrow> state" where
  "add_block s block =
     (if head s = 0
      then s\<lparr>head := block, mem := set_next (set_prev (mem s) block 0) block 0\<rparr>
      else let old = head s;
               m1 = set_prev (mem s) block 0;
               m2 = set_next m1 block old;
               m3 = set_prev m2 old block
           in s\<lparr>head := block, mem := m3\<rparr>)"

definition remove_block :: "state \<Rightarrow> addr \<Rightarrow> state" where
  "remove_block s block =
     (let prev = prev_of (mem s) block;
          nxt = next_of (mem s) block;
          s1 = (if prev \<noteq> 0 then s\<lparr>mem := set_next (mem s) prev nxt\<rparr> else s\<lparr>head := nxt\<rparr>)
      in if nxt \<noteq> 0 then s1\<lparr>mem := set_prev (mem s1) nxt prev\<rparr> else s1)"

definition round_up :: "64 word \<Rightarrow> 64 word \<Rightarrow> 64 word" where
  "round_up sz n = (sz + (n - 1)) div n * n"

definition set_header :: "memory \<Rightarrow> addr \<Rightarrow> 64 word \<Rightarrow> bool \<Rightarrow> memory" where
  "set_header m block sz is_alloc =
     store64 (store64 m block (sz OR (if is_alloc then 1 else 0)))
       (block + sz - sizeof_footer) sz"

definition get_size :: "memory \<Rightarrow> addr \<Rightarrow> 64 word" where
  "get_size m block = load64 m block AND NOT 1"

definition is_allocated :: "memory \<Rightarrow> addr \<Rightarrow> bool" where
  "is_allocated m block = (load64 m block AND 1 \<noteq> 0)"

text \<open>
  The walk of \<^verbatim>\<open>find_fit\<close> over the free list. On a cyclic list without a
  fitting block the loop of the source never ends, which is the value \<open>None\<close>;
  \<open>Some 0\<close> is the \<^verbatim>\<open>NULL\<close> the source returns when the list ends.
\<close>

partial_function (option) find_fit_from :: "memory \<Rightarrow> addr \<Rightarrow> 64 word \<Rightarrow> addr option" where
  "find_fit_from m cur sz =
     (if cur = 0 then Some 0
      else if sz \<le> get_size m cur then Some cur
      else find_fit_from m (next_of m cur) sz)"

declare find_fit_from.simps [code]

definition find_fit :: "state \<Rightarrow> 64 word \<Rightarrow> addr option" where
  "find_fit s sz = find_fit_from (mem s) (head s) sz"

definition block_from_payload :: "addr \<Rightarrow> addr" where
  "block_from_payload ptr = ptr - 8"

definition payload :: "addr \<Rightarrow> addr" where
  "payload block = block + 8"

definition mm_init :: "state \<Rightarrow> state \<times> bool" where
  "mm_init s =
     (case mem_sbrk s (ALIGNMENT - sizeof_block) of
        None \<Rightarrow> (s, False)
      | Some (padding, s1) \<Rightarrow> (s1\<lparr>head := 0, mm_heap_first := 0, mm_heap_last := 0\<rparr>, True))"

definition split_helper :: "state \<Rightarrow> addr \<Rightarrow> addr \<Rightarrow> 64 word \<Rightarrow> 64 word \<Rightarrow> state" where
  "split_helper s block split sz split_size =
     (let s1 = (if block = mm_heap_last s then s\<lparr>mm_heap_last := split\<rparr> else s);
          s2 = s1\<lparr>mem := set_header (mem s1) block sz True\<rparr>;
          s3 = s2\<lparr>mem := set_header (mem s2) split split_size False\<rparr>
      in add_block s3 split)"

text \<open>The size \<^verbatim>\<open>mm_malloc\<close> computes for a request, in its first statement.\<close>

definition need :: "64 word \<Rightarrow> 64 word" where
  "need n = round_up (sizeof_block + n + sizeof_footer) ALIGNMENT"

text \<open>The test of \<^verbatim>\<open>mm_malloc\<close> that decides whether the found block is split.\<close>

definition splits :: "64 word \<Rightarrow> 64 word \<Rightarrow> bool" where
  "splits block_size sz = (sizeof_block + sz + sizeof_footer < block_size)"

text \<open>
  The part of \<^verbatim>\<open>mm_malloc\<close> that places a request of (rounded) size
  \<open>sz\<close> in a block found on the free list.
\<close>

definition place :: "state \<Rightarrow> addr \<Rightarrow> 64 word \<Rightarrow> state" where
  "place s block sz =
     (let s1 = remove_block s block
      in if splits (get_size (mem s1) block) sz
         then split_helper s1 block (block + sz) sz (get_size (mem s1) block - sz)
         else s1\<lparr>mem := set_header (mem s1) block (get_size (mem s1) block) True\<rparr>)"

text \<open>The part of \<^verbatim>\<open>mm_malloc\<close> that extends the heap when no block fits.\<close>

definition extend :: "state \<Rightarrow> 64 word \<Rightarrow> state \<times> addr" where
  "extend s sz =
     (case mem_sbrk s sz of
        None \<Rightarrow> (s, 0)
      | Some (block, s1) \<Rightarrow>
          let s2 = (if mm_heap_first s1 = 0 then s1\<lparr>mm_heap_first := block\<rparr> else s1);
              s3 = s2\<lparr>mm_heap_last := block\<rparr>
          in (s3\<lparr>mem := set_header (mem s3) block sz True\<rparr>, payload block))"

text \<open>\<open>None\<close>: the search of the free list does not end.\<close>

definition mm_malloc :: "state \<Rightarrow> 64 word \<Rightarrow> (state \<times> addr) option" where
  "mm_malloc s n =
     (let sz = need n
      in case find_fit s sz of
           None \<Rightarrow> None
         | Some block \<Rightarrow>
             if block \<noteq> 0 then Some (place s block sz, payload block)
             else Some (extend s sz))"

definition coalesce_helper :: "state \<Rightarrow> addr \<Rightarrow> addr \<Rightarrow> addr \<Rightarrow> state" where
  "coalesce_helper s prev block next =
     (let m = mem s in
      if prev \<noteq> 0 \<and> next \<noteq> 0 \<and> \<not> is_allocated m prev \<and> \<not> is_allocated m next then
        let s1 = s\<lparr>mem := set_header m prev (get_size m prev + get_size m block + get_size m next) False\<rparr>;
            s2 = remove_block s1 next;
            s3 = remove_block s2 block
        in if next = mm_heap_last s3 then s3\<lparr>mm_heap_last := prev\<rparr> else s3
      else if prev \<noteq> 0 \<and> \<not> is_allocated m prev then
        let s1 = s\<lparr>mem := set_header m prev (get_size m prev + get_size m block) False\<rparr>;
            s2 = remove_block s1 block
        in if block = mm_heap_last s2 then s2\<lparr>mm_heap_last := prev\<rparr> else s2
      else if next \<noteq> 0 \<and> \<not> is_allocated m next then
        let s1 = s\<lparr>mem := set_header m block (get_size m block + get_size m next) False\<rparr>;
            s2 = remove_block s1 next
        in if next = mm_heap_last s2 then s2\<lparr>mm_heap_last := block\<rparr> else s2
      else s\<lparr>mem := set_header m block (get_size m block) False\<rparr>)"

text \<open>
  \<^verbatim>\<open>mm_free\<close>. The source reads the footer of the previous block at
  \<^verbatim>\<open>block - sizeof(footer)\<close>, the size of a pointer, which is 8 like the
  size of \<^verbatim>\<open>footer_t\<close>. Both neighbours are looked up after
  \<^verbatim>\<open>add_block\<close> has written the links of the block.
\<close>

definition mm_free :: "state \<Rightarrow> addr \<Rightarrow> state" where
  "mm_free s ptr =
     (if ptr = 0 then s
      else let block = block_from_payload ptr;
               s1 = add_block s block;
               prev = (if block \<noteq> mm_heap_first s1
                       then block - load64 (mem s1) (block - 8) else 0);
               next = (if block \<noteq> mm_heap_last s1
                       then block + get_size (mem s1) block else 0)
           in coalesce_helper s1 prev block next)"

text \<open>The number of bytes \<^verbatim>\<open>mm_realloc\<close> copies from the old payload.\<close>

definition copy_length :: "memory \<Rightarrow> addr \<Rightarrow> 64 word \<Rightarrow> 64 word" where
  "copy_length m old_ptr sz =
     (let old_block = block_from_payload old_ptr;
          new_size = get_size m old_block
      in if sz < new_size then sz else new_size)"

text \<open>
  \<^verbatim>\<open>mm_realloc\<close> and \<^verbatim>\<open>mm_calloc\<close> call \<^verbatim>\<open>mm_malloc\<close> first and
  use its result unchecked. \<open>None\<close>: the search in \<^verbatim>\<open>mm_malloc\<close> does not
  end; \<open>Inl\<close>: the call faults; \<open>Inr\<close>: the state and the pointer returned.
\<close>

definition mm_realloc :: "state \<Rightarrow> addr \<Rightarrow> 64 word \<Rightarrow> (fault + state \<times> addr) option" where
  "mm_realloc s old_ptr sz =
     (case mm_malloc s sz of
        None \<Rightarrow> None
      | Some (s1, new_ptr) \<Rightarrow>
          if old_ptr = 0 then Some (Inr (s1, new_ptr))
          else if sz = 0 then Some (Inr (mm_free s1 old_ptr, 0))
          else (case memcpy (mem s1) new_ptr old_ptr (copy_length (mem s1) old_ptr sz) of
                  Inl f \<Rightarrow> Some (Inl f)
                | Inr m' \<Rightarrow> Some (Inr (mm_free (s1\<lparr>mem := m'\<rparr>) old_ptr, new_ptr))))"

definition mm_calloc :: "state \<Rightarrow> 64 word \<Rightarrow> 64 word \<Rightarrow> (fault + state \<times> addr) option" where
  "mm_calloc s nmemb sz =
     (let total_size = nmemb * sz
      in case mm_malloc s total_size of
           None \<Rightarrow> None
         | Some (s1, block) \<Rightarrow>
             (case memset (mem s1) block 0 (nmemb * sz) of
                Inl f \<Rightarrow> Some (Inl f)
              | Inr m' \<Rightarrow> Some (Inr (s1\<lparr>mem := m'\<rparr>, block))))"

section \<open>Notions the properties are stated with\<close>

text \<open>
  \<^verbatim>\<open>sizeof(free_block_t)\<close>: a header and the two links. A block that can be put
  on the free list holds these and a footer; rounded to the alignment this is the
  minimum block size, 32 bytes.
\<close>

definition sizeof_free_block :: "64 word" where
  "sizeof_free_block = 3 * 8"

definition minimum_block_size :: "64 word" where
  "minimum_block_size = round_up (sizeof_free_block + sizeof_footer) ALIGNMENT"

text \<open>The footer word of a block, read with the size its header gives.\<close>

definition footer_of :: "memory \<Rightarrow> addr \<Rightarrow> 64 word" where
  "footer_of m b = load64 m (b + get_size m b - sizeof_footer)"

text \<open>A block and the block that physically follows it are both marked free.\<close>

definition both_free :: "state \<Rightarrow> addr \<Rightarrow> bool" where
  "both_free s b =
     (\<not> is_allocated (mem s) b \<and> \<not> is_allocated (mem s) (b + get_size (mem s) b))"

text \<open>
  The size a request needs, as the specification writes it: header, payload and
  footer, rounded up to the alignment, in unbounded arithmetic.
\<close>

definition need_unbounded :: "64 word \<Rightarrow> nat" where
  "need_unbounded n = (8 + unat n + 8 + (16 - 1)) div 16 * 16"


subsection \<open>Well-formed free lists and heaps\<close>

text \<open>
  The free list in memory: \<open>dll m pr p bs\<close> holds when following the
  \<^verbatim>\<open>next\<close> links from \<open>p\<close> visits exactly the blocks \<open>bs\<close> and ends at
  \<^verbatim>\<open>NULL\<close>, and every \<^verbatim>\<open>prev\<close> link points back (\<open>pr\<close> for the first).
\<close>

fun dll :: "memory \<Rightarrow> addr \<Rightarrow> addr \<Rightarrow> addr list \<Rightarrow> bool" where
  "dll m pr p [] = (p = 0)"
| "dll m pr p (b # bs) = (p = b \<and> b \<noteq> 0 \<and> prev_of m b = pr \<and> dll m b (next_of m b) bs)"

text \<open>
  A block as the allocator expects it: not at \<^verbatim>\<open>NULL\<close>, its payload aligned, its
  size a multiple of the alignment and at least the minimum block size, and ending
  at least one minimum block below the top of the address space, so that no address
  computed from it wraps.
\<close>

definition block_ok :: "memory \<Rightarrow> addr \<Rightarrow> bool" where
  "block_ok m b =
     (b \<noteq> 0 \<and> unat b mod 16 = 8 \<and> unat (get_size m b) mod 16 = 0 \<and>
      32 \<le> unat (get_size m b) \<and> unat b + unat (get_size m b) + 32 \<le> 2 ^ 64)"

definition apart :: "memory \<Rightarrow> addr \<Rightarrow> addr \<Rightarrow> bool" where
  "apart m b c =
     (unat b + unat (get_size m b) \<le> unat c \<or> unat c + unat (get_size m c) \<le> unat b)"

text \<open>
  \<open>free_list_wf s fl\<close>: the free list of \<open>s\<close> is the list \<open>fl\<close> of blocks,
  each a free block of the expected form, no two of them overlapping.
\<close>

definition free_list_wf :: "state \<Rightarrow> addr list \<Rightarrow> bool" where
  "free_list_wf s fl =
     (dll (mem s) 0 (head s) fl \<and> distinct fl \<and>
      list_all (\<lambda>b. block_ok (mem s) b \<and> \<not> is_allocated (mem s) b) fl \<and>
      list_all (\<lambda>b. list_all (\<lambda>c. b = c \<or> apart (mem s) b c) fl) fl)"

text \<open>
  \<open>layout m a bs\<close>: the blocks \<open>bs\<close> lie one after the other from address
  \<open>a\<close> on, each of the expected form with a footer that repeats its size.
\<close>

fun layout :: "memory \<Rightarrow> addr \<Rightarrow> addr list \<Rightarrow> bool" where
  "layout m a [] = True"
| "layout m a (b # bs) =
     (b = a \<and> block_ok m b \<and> footer_of m b = get_size m b \<and> layout m (b + get_size m b) bs)"

text \<open>
  \<open>heap_wf s bs fl\<close>: the heap of \<open>s\<close> is the sequence \<open>bs\<close> of blocks from
  \<^verbatim>\<open>mm_heap_first\<close> to \<^verbatim>\<open>mm_heap_last\<close>, and its free list \<open>fl\<close> holds
  exactly the blocks of the heap that are marked free.
\<close>

definition heap_wf :: "state \<Rightarrow> addr list \<Rightarrow> addr list \<Rightarrow> bool" where
  "heap_wf s bs fl =
     (bs \<noteq> [] \<and> mm_heap_first s = hd bs \<and> mm_heap_last s = last bs \<and>
      layout (mem s) (hd bs) bs \<and>
      dll (mem s) 0 (head s) fl \<and> distinct fl \<and>
      set fl = set (filter (\<lambda>b. \<not> is_allocated (mem s) b) bs))"


text \<open>
  The byte at address \<open>x\<close> lies in the block \<open>u\<close> (header, payload or
  footer), or in its payload.
\<close>

definition in_block :: "memory \<Rightarrow> addr \<Rightarrow> addr \<Rightarrow> bool" where
  "in_block m u x = (unat u \<le> unat x \<and> unat x < unat u + unat (get_size m u))"

definition in_payload :: "memory \<Rightarrow> addr \<Rightarrow> addr \<Rightarrow> bool" where
  "in_payload m u x =
     (unat u + unat sizeof_block \<le> unat x \<and>
      unat x + unat sizeof_footer < unat u + unat (get_size m u))"


text \<open>
  Notions for the proofs: the first 32 bytes from an address are addressable without
  wrapping; the first 32 bytes from two addresses do not overlap.
\<close>

definition room :: "addr \<Rightarrow> bool" where
  "room x = (unat x + 32 \<le> 2 ^ 64)"

definition far :: "addr \<Rightarrow> addr \<Rightarrow> bool" where
  "far x y = (unat x + 32 \<le> unat y \<or> unat y + 32 \<le> unat x)"

text \<open>
  The invariant of the writes of \<^verbatim>\<open>mm_free\<close>, for a set \<open>L\<close> of blocks (the
  freed block and the free blocks) and the memory \<open>m0\<close> before the call: bytes
  outside the blocks of \<open>L\<close> are as before, and the links of the blocks of
  \<open>L\<close> point into \<open>L\<close>.
\<close>

definition frame_inv :: "addr set \<Rightarrow> memory \<Rightarrow> memory \<Rightarrow> bool" where
  "frame_inv L m0 m =
     ((\<forall>x. (\<forall>u\<in>L. \<not> in_block m0 u x) \<longrightarrow> m x = m0 x) \<and>
      (\<forall>u\<in>L. (prev_of m u = 0 \<or> prev_of m u \<in> L) \<and> (next_of m u = 0 \<or> next_of m u \<in> L)))"

definition geometry :: "addr set \<Rightarrow> memory \<Rightarrow> bool" where
  "geometry L m0 = ((\<forall>u\<in>L. block_ok m0 u) \<and> (\<forall>u\<in>L. \<forall>v\<in>L. u = v \<or> apart m0 u v))"

subsection \<open>Concrete heaps\<close>

text \<open>
  A region provider that starts at address 4096 with zeroed bytes and refuses to
  grow past \<open>limit\<close> bytes; the allocator's globals are the \<^verbatim>\<open>NULL\<close> of
  their initialisers.
\<close>

definition fresh_region :: "64 word \<Rightarrow> state" where
  "fresh_region limit =
     \<lparr>mem = (\<lambda>_. 0), head = 0, mm_heap_first = 0, mm_heap_last = 0,
      mem_brk = 4096, mem_max_addr = 4096 + limit\<rparr>"

text \<open>\<^verbatim>\<open>mm_init(); p = mm_malloc(n);\<close> on a fresh region.\<close>

definition heap_one :: "64 word \<Rightarrow> 64 word \<Rightarrow> (state \<times> addr) option" where
  "heap_one limit n = mm_malloc (fst (mm_init (fresh_region limit))) n"

text \<open>
  \<^verbatim>\<open>mm_init(); a = mm_malloc(0); b = mm_malloc(16); c = mm_malloc(16); mm_free(a);\<close>
\<close>

definition free_of_zero_size_block :: "state option" where
  "free_of_zero_size_block =
     (case heap_one 4096 0 of None \<Rightarrow> None | Some (s1, a) \<Rightarrow>
      (case mm_malloc s1 16 of None \<Rightarrow> None | Some (s2, b) \<Rightarrow>
       (case mm_malloc s2 16 of None \<Rightarrow> None | Some (s3, c) \<Rightarrow>
          Some (mm_free s3 a))))"

text \<open>\<^verbatim>\<open>mm_init(); a = mm_malloc(0); mm_free(a);\<close> on a fresh region.\<close>

definition zero_size_block_freed :: "state option" where
  "zero_size_block_freed =
     (case heap_one 4096 0 of None \<Rightarrow> None | Some (s, a) \<Rightarrow> Some (mm_free s a))"

text \<open>
  Heaps written out word by word: \<open>heap_image ws\<close> is the zeroed memory with
  the 64-bit words \<open>ws\<close> stored at their addresses.
\<close>

definition heap_image :: "(addr \<times> 64 word) list \<Rightarrow> memory" where
  "heap_image ws = foldr (\<lambda>(a, v) m. store64 m a v) ws (\<lambda>_. 0)"

text \<open>
  The heap that \<^verbatim>\<open>mm_init(); p = mm_malloc(48); mm_free(p);\<close> produces on a fresh
  region, with its words in the order the calls write them: one free block of 64
  bytes at 4104, alone on the free list.
\<close>

definition one_free_block :: state where
  "one_free_block =
     \<lparr>mem = heap_image
        [(4160, 64), (4104, 64), (4120, 0), (4112, 0), (4160, 64), (4104, 65)],
      head = 4104, mm_heap_first = 4104, mm_heap_last = 4104,
      mem_brk = 4168, mem_max_addr = 8192\<rparr>"

text \<open>
  The heap that \<^verbatim>\<open>mm_init(); a = mm_malloc(16); b = mm_malloc(16); c = mm_malloc(48);
  d = mm_malloc(16); mm_free(a); mm_free(c);\<close> produces on a fresh region. Its blocks
  are \<open>a\<close> (32 bytes at 4104, free), \<open>b\<close> (32 bytes at 4136, allocated),
  \<open>c\<close> (64 bytes at 4168, free) and \<open>d\<close> (32 bytes at 4232, allocated); the
  free list holds \<open>c\<close> and then \<open>a\<close>.
\<close>

definition two_free_blocks :: state where
  "two_free_blocks =
     \<lparr>mem = heap_image
        [(4224, 64), (4168, 64), (4112, 4168), (4184, 4104), (4176, 0),
         (4128, 32), (4104, 32), (4120, 0), (4112, 0), (4256, 32),
         (4232, 33), (4224, 64), (4168, 65), (4160, 32), (4136, 33),
         (4128, 32), (4104, 33)],
      head = 4168, mm_heap_first = 4104, mm_heap_last = 4232,
      mem_brk = 4264, mem_max_addr = 8192\<rparr>"

section \<open>Lemmas\<close>

subsection \<open>Loads and stores\<close>

lemma octet_cases:
  "n < 64 \<Longrightarrow> n < 8 \<or> 8 \<le> n \<and> n - 8 < 64 \<and> n - 8 < 8 \<or> 16 \<le> n \<and> n - 16 < 64 \<and> n - 16 < 8 \<or>
     24 \<le> n \<and> n - 24 < 64 \<and> n - 24 < 8 \<or> 32 \<le> n \<and> n - 32 < 64 \<and> n - 32 < 8 \<or>
     40 \<le> n \<and> n - 40 < 64 \<and> n - 40 < 8 \<or> 48 \<le> n \<and> n - 48 < 64 \<and> n - 48 < 8 \<or>
     56 \<le> n \<and> n - 56 < 64 \<and> n - 56 < (8::nat)"
proof -
  assume "n < 64"
  then consider "n < 8" | "8 \<le> n" "n < 16" | "16 \<le> n" "n < 24" | "24 \<le> n" "n < 32"
    | "32 \<le> n" "n < 40" | "40 \<le> n" "n < 48" | "48 \<le> n" "n < 56" | "56 \<le> n" "n < 64"
    by linarith
  then show ?thesis
    by cases (simp_all add: less_diff_conv2)
qed

lemma load64_store64_same [simp]: "load64 (store64 m a v) a = v"
  unfolding load64_def store64_def
  apply simp
  apply (rule bit_word_eqI)
  apply (simp add: bit_simps cong: conj_cong)
  apply (case_tac "bit v n")
   apply simp_all
  apply (erule octet_cases)
  done

lemma in_cell_iff:
  "unat (a::64 word) + 8 \<le> 2 ^ 64 \<Longrightarrow> (x - a < 8) = (unat a \<le> unat x \<and> unat x < unat a + 8)"
  apply (simp add: word_less_nat_alt unat_sub_if')
  apply (auto simp: word_le_nat_alt word_less_nat_alt)
  done

lemma store64_other_byte:
  "unat a + 8 \<le> 2 ^ 64 \<Longrightarrow> unat x < unat a \<or> unat a + 8 \<le> unat x \<Longrightarrow> store64 m a v x = m x"
  by (auto simp: store64_def in_cell_iff)

lemma unat_plus:
  "unat (b::64 word) + unat k < 2 ^ 64 \<Longrightarrow> unat (b + k) = unat b + unat k"
  using unat_add_lem[of b k] by simp

lemma unat_minus:
  "unat k \<le> unat (b::64 word) \<Longrightarrow> unat (b - k) = unat b - unat k"
  by (simp add: unat_sub word_le_nat_alt)

lemma load64_cong:
  assumes "unat b + 8 \<le> 2 ^ 64"
    and "\<And>x. unat b \<le> unat x \<Longrightarrow> unat x < unat b + 8 \<Longrightarrow> m' x = m x"
  shows "load64 m' b = load64 m b"
proof -
  have k: "unat (b + k) = unat b + unat k" if "unat k < 8" for k
    using that assms(1) by (intro unat_plus) simp
  have "m' (b + k) = m (b + k)" if "unat k < 8" for k
    using that k[OF that] by (intro assms(2)) simp_all
  from this[of 0] this[of 1] this[of 2] this[of 3] this[of 4] this[of 5] this[of 6] this[of 7]
  show ?thesis
    by (simp add: load64_def)
qed

lemma load64_store64_other:
  assumes "unat a + 8 \<le> 2 ^ 64" "unat b + 8 \<le> 2 ^ 64"
    and "unat a + 8 \<le> unat b \<or> unat b + 8 \<le> unat a"
  shows "load64 (store64 m a v) b = load64 m b"
  using assms by (intro load64_cong) (auto simp: store64_other_byte)

subsection \<open>The free list as a list of blocks\<close>

lemma find_fit_from_dll:
  "dll m pr p fl \<Longrightarrow>
   find_fit_from m p sz = Some (case find (\<lambda>b. sz \<le> get_size m b) fl of None \<Rightarrow> 0 | Some b \<Rightarrow> b)"
proof (induction fl arbitrary: pr p)
  case Nil
  then show ?case by (simp add: find_fit_from.simps)
next
  case (Cons b bs)
  then show ?case
    by (subst find_fit_from.simps) auto
qed

lemma dll_cong:
  "(\<And>x. x \<in> set fl \<Longrightarrow> prev_of m' x = prev_of m x \<and> next_of m' x = next_of m x) \<Longrightarrow>
   dll m' pr p fl = dll m pr p fl"
  by (induction fl arbitrary: pr p) auto

lemma dll_not_null: "dll m pr p fl \<Longrightarrow> 0 \<notin> set fl"
  by (induction fl arbitrary: pr p) auto

lemma dll_head: "dll m pr p fl \<Longrightarrow> p = (case fl of [] \<Rightarrow> 0 | b # _ \<Rightarrow> b)"
  by (cases fl) auto

lemma dll_next_in:
  "dll m pr p fl \<Longrightarrow> b \<in> set fl \<Longrightarrow> next_of m b = 0 \<or> next_of m b \<in> set fl"
proof (induction fl arbitrary: pr p)
  case Nil
  then show ?case by simp
next
  case (Cons x xs)
  show ?case
  proof (cases "b = x")
    case True
    with Cons.prems show ?thesis by (cases xs) auto
  next
    case False
    with Cons show ?thesis by auto
  qed
qed

lemma dll_prev_in:
  "dll m pr p fl \<Longrightarrow> b \<in> set fl \<Longrightarrow>
   (p = b \<and> prev_of m b = pr) \<or> (p \<noteq> b \<and> prev_of m b \<in> set fl \<and> next_of m (prev_of m b) = b)"
proof (induction fl arbitrary: pr p)
  case Nil
  then show ?case by simp
next
  case (Cons x xs)
  show ?case
  proof (cases "b = x")
    case True
    with Cons.prems show ?thesis by auto
  next
    case False
    with Cons.prems have b: "b \<in> set xs" and d: "dll m x (next_of m x) xs" and px: "p = x"
      by auto
    from Cons.IH[OF d b] False px show ?thesis
      by auto
  qed
qed

lemma dll_remove:
  assumes "dll m pr p fl" "b \<in> set fl" "distinct fl" "pr \<notin> set fl"
    and "\<And>x. x \<in> set fl \<Longrightarrow> x \<noteq> b \<Longrightarrow>
           prev_of m' x = (if x = next_of m b then prev_of m b else prev_of m x)"
    and "\<And>x. x \<in> set fl \<Longrightarrow> x \<noteq> b \<Longrightarrow>
           next_of m' x = (if x = prev_of m b then next_of m b else next_of m x)"
  shows "dll m' pr (if p = b then next_of m b else p) (remove1 b fl)"
  using assms
proof (induction fl arbitrary: pr p)
  case Nil
  then show ?case by simp
next
  case (Cons x xs)
  from Cons.prems(1) have px: "p = x" and x0: "x \<noteq> 0" and prx: "prev_of m x = pr"
    and d: "dll m x (next_of m x) xs"
    by auto
  show ?case
  proof (cases "x = b")
    case True
    have fr: "dll m' b' r ys = dll m b' r ys" if "set ys \<subseteq> set xs" "next_of m b \<notin> set ys" for b' r ys
    proof (rule dll_cong)
      fix z assume z: "z \<in> set ys"
      with that Cons.prems(3,4) True have "z \<in> set (x # xs)" "z \<noteq> b" "z \<noteq> next_of m b" "z \<noteq> prev_of m b"
        using prx by auto
      with Cons.prems(5)[of z] Cons.prems(6)[of z]
      show "prev_of m' z = prev_of m z \<and> next_of m' z = next_of m z" by simp
    qed
    show ?thesis
    proof (cases xs)
      case Nil
      with d True px show ?thesis by simp
    next
      case (Cons y ys)
      with d have ny: "next_of m x = y" and y0: "y \<noteq> 0" and dy: "dll m y (next_of m y) ys"
        by auto
      from Cons Cons.prems(3) \<open>distinct (x # xs)\<close> have yb: "y \<noteq> b" "y \<notin> set ys"
        using True by auto
      have ypr: "y \<noteq> pr" using \<open>pr \<notin> set (x # xs)\<close> Cons by auto
      have "prev_of m' y = pr"
        using \<open>\<And>z. z \<in> set (x # xs) \<Longrightarrow> z \<noteq> b \<Longrightarrow> prev_of m' z = (if z = next_of m b then prev_of m b else prev_of m z)\<close>[of y]
          Cons yb ny True prx by simp
      moreover have "next_of m' y = next_of m y"
        using \<open>\<And>z. z \<in> set (x # xs) \<Longrightarrow> z \<noteq> b \<Longrightarrow> next_of m' z = (if z = prev_of m b then next_of m b else next_of m z)\<close>[of y]
          Cons yb ypr True prx by simp
      moreover have "dll m' y (next_of m y) ys = dll m y (next_of m y) ys"
        using Cons yb ny True by (intro fr) auto
      ultimately show ?thesis
        using dy y0 ny True px Cons by simp
    qed
  next
    case False
    with Cons.prems have bxs: "b \<in> set xs" and dxs: "distinct xs" and xxs: "x \<notin> set xs"
      by auto
    have nb: "next_of m b = 0 \<or> next_of m b \<in> set xs"
      by (rule dll_next_in[OF d bxs])
    with x0 xxs have xnb: "x \<noteq> next_of m b" by auto
    have pb: "(next_of m x = b \<and> prev_of m b = x) \<or>
              (next_of m x \<noteq> b \<and> prev_of m b \<in> set xs \<and> next_of m (prev_of m b) = b)"
      by (rule dll_prev_in[OF d bxs])
    with xxs have iff: "(x = prev_of m b) = (next_of m x = b)" by auto
    have p1: "prev_of m' x = pr"
      using Cons.prems(5)[of x] False xnb prx by simp
    have n1: "next_of m' x = (if next_of m x = b then next_of m b else next_of m x)"
      using Cons.prems(6)[of x] False iff by simp
    have "dll m' x (if next_of m x = b then next_of m b else next_of m x) (remove1 b xs)"
    proof (rule Cons.IH[OF d bxs dxs xxs])
      fix z assume "z \<in> set xs" "z \<noteq> b"
      then show "prev_of m' z = (if z = next_of m b then prev_of m b else prev_of m z)"
        using Cons.prems(5)[of z] by simp
    next
      fix z assume "z \<in> set xs" "z \<noteq> b"
      then show "next_of m' z = (if z = prev_of m b then next_of m b else next_of m z)"
        using Cons.prems(6)[of z] by simp
    qed
    with p1 n1 x0 px False show ?thesis by simp
  qed
qed

subsection \<open>Frames and link fields\<close>

lemma unat8: "unat x + 8 < 2 ^ 64 \<Longrightarrow> unat ((x::64 word) + 8) = unat x + 8"
  using unat_plus[of x 8] by simp

lemma unat16: "unat x + 16 < 2 ^ 64 \<Longrightarrow> unat ((x::64 word) + 16) = unat x + 16"
  using unat_plus[of x 16] by simp

lemma room8: "room x \<Longrightarrow> unat (x + 8) = unat x + 8"
  by (rule unat8) (simp add: room_def)

lemma room16: "room x \<Longrightarrow> unat (x + 16) = unat x + 16"
  by (rule unat16) (simp add: room_def)

lemma far_neq: "far x y \<Longrightarrow> x \<noteq> y"
  by (auto simp: far_def)

lemma prev_set_prev:
  "room x \<Longrightarrow> room y \<Longrightarrow> x = y \<or> far x y \<Longrightarrow>
   prev_of (set_prev m y v) x = (if x = y then v else prev_of m x)"
  unfolding prev_of_def set_prev_def
  apply (cases "x = y")
   apply simp
  apply (simp add: far_neq)
  apply (rule load64_store64_other)
    apply (auto simp: room8 far_def room_def)
  done

lemma next_set_next:
  "room x \<Longrightarrow> room y \<Longrightarrow> x = y \<or> far x y \<Longrightarrow>
   next_of (set_next m y v) x = (if x = y then v else next_of m x)"
  unfolding next_of_def set_next_def
  apply (cases "x = y")
   apply simp
  apply (simp add: far_neq)
  apply (rule load64_store64_other)
    apply (auto simp: room16 far_def room_def)
  done

lemma prev_set_next:
  "room x \<Longrightarrow> room y \<Longrightarrow> x = y \<or> far x y \<Longrightarrow> prev_of (set_next m y v) x = prev_of m x"
  unfolding prev_of_def set_next_def
  apply (rule load64_store64_other)
    apply (auto simp: room8 room16 far_def room_def)
  done

lemma next_set_prev:
  "room x \<Longrightarrow> room y \<Longrightarrow> x = y \<or> far x y \<Longrightarrow> next_of (set_prev m y v) x = next_of m x"
  unfolding next_of_def set_prev_def
  apply (rule load64_store64_other)
    apply (auto simp: room8 room16 far_def room_def)
  done

lemma header_set_prev:
  "room x \<Longrightarrow> room y \<Longrightarrow> x = y \<or> far x y \<Longrightarrow> load64 (set_prev m y v) x = load64 m x"
  unfolding set_prev_def
  apply (rule load64_store64_other)
    apply (auto simp: room8 room16 far_def room_def)
  done

lemma header_set_next:
  "room x \<Longrightarrow> room y \<Longrightarrow> x = y \<or> far x y \<Longrightarrow> load64 (set_next m y v) x = load64 m x"
  unfolding set_next_def
  apply (rule load64_store64_other)
    apply (auto simp: room8 room16 far_def room_def)
  done

subsection \<open>Unlinking a block\<close>

lemma remove_block_fields [simp]:
  "mem_brk (remove_block s b) = mem_brk s"
  "mem_max_addr (remove_block s b) = mem_max_addr s"
  "mm_heap_first (remove_block s b) = mm_heap_first s"
  "mm_heap_last (remove_block s b) = mm_heap_last s"
  by (simp_all add: remove_block_def Let_def)

lemma remove_block_head:
  "head (remove_block s b) = (if prev_of (mem s) b \<noteq> 0 then head s else next_of (mem s) b)"
  by (simp add: remove_block_def Let_def)

lemma remove_block_mem:
  "mem (remove_block s b) =
     (let P = prev_of (mem s) b; N = next_of (mem s) b;
          m1 = (if P \<noteq> 0 then set_next (mem s) P N else mem s)
      in if N \<noteq> 0 then set_prev m1 N P else m1)"
  by (simp add: remove_block_def Let_def)

lemma remove_block_links:
  assumes P: "prev_of (mem s) b = 0 \<or> prev_of (mem s) b \<in> A"
    and N: "next_of (mem s) b = 0 \<or> next_of (mem s) b \<in> A"
    and x: "x \<in> A"
    and rm: "\<forall>x\<in>A. room x" and fr: "\<forall>x\<in>A. \<forall>y\<in>A. x = y \<or> far x y"
  shows "prev_of (mem (remove_block s b)) x =
           (if x = next_of (mem s) b \<and> x \<noteq> 0 then prev_of (mem s) b else prev_of (mem s) x)"
    and "next_of (mem (remove_block s b)) x =
           (if x = prev_of (mem s) b \<and> x \<noteq> 0 then next_of (mem s) b else next_of (mem s) x)"
    and "load64 (mem (remove_block s b)) x = load64 (mem s) x"
proof -
  have rx: "room x" using x rm by simp
  have rP: "prev_of (mem s) b \<noteq> 0 \<Longrightarrow> room (prev_of (mem s) b) \<and> (x = prev_of (mem s) b \<or> far x (prev_of (mem s) b))"
    using P x rm fr by auto
  have rN: "next_of (mem s) b \<noteq> 0 \<Longrightarrow> room (next_of (mem s) b) \<and> (x = next_of (mem s) b \<or> far x (next_of (mem s) b))"
    using N x rm fr by auto
  show "prev_of (mem (remove_block s b)) x =
           (if x = next_of (mem s) b \<and> x \<noteq> 0 then prev_of (mem s) b else prev_of (mem s) x)"
    using rx rP rN by (auto simp: remove_block_mem Let_def prev_set_prev prev_set_next)
  show "next_of (mem (remove_block s b)) x =
           (if x = prev_of (mem s) b \<and> x \<noteq> 0 then next_of (mem s) b else next_of (mem s) x)"
    using rx rP rN by (auto simp: remove_block_mem Let_def next_set_prev next_set_next)
  show "load64 (mem (remove_block s b)) x = load64 (mem s) x"
    using rx rP rN by (auto simp: remove_block_mem Let_def header_set_prev header_set_next)
qed

lemma remove_block_dll:
  assumes d: "dll (mem s) 0 (head s) fl" and b: "b \<in> set fl" and dist: "distinct fl"
    and rm: "\<forall>x\<in>set fl. room x" and fr: "\<forall>x\<in>set fl. \<forall>y\<in>set fl. x = y \<or> far x y"
  shows "dll (mem (remove_block s b)) 0 (head (remove_block s b)) (remove1 b fl)"
proof -
  have z: "0 \<notin> set fl" by (rule dll_not_null[OF d])
  have P: "(head s = b \<and> prev_of (mem s) b = 0) \<or>
           (head s \<noteq> b \<and> prev_of (mem s) b \<in> set fl \<and> next_of (mem s) (prev_of (mem s) b) = b)"
    by (rule dll_prev_in[OF d b])
  have N: "next_of (mem s) b = 0 \<or> next_of (mem s) b \<in> set fl"
    by (rule dll_next_in[OF d b])
  from P have P': "prev_of (mem s) b = 0 \<or> prev_of (mem s) b \<in> set fl" by auto
  from P z have hd: "head (remove_block s b) = (if head s = b then next_of (mem s) b else head s)"
    by (auto simp: remove_block_head)
  have "dll (mem (remove_block s b)) 0 (if head s = b then next_of (mem s) b else head s) (remove1 b fl)"
  proof (rule dll_remove[OF d b dist z])
    fix x assume "x \<in> set fl" "x \<noteq> b"
    then show "prev_of (mem (remove_block s b)) x =
         (if x = next_of (mem s) b then prev_of (mem s) b else prev_of (mem s) x)"
      using remove_block_links(1)[OF P' N _ rm fr, of x] z by auto
  next
    fix x assume "x \<in> set fl" "x \<noteq> b"
    then show "next_of (mem (remove_block s b)) x =
         (if x = prev_of (mem s) b then next_of (mem s) b else next_of (mem s) x)"
      using remove_block_links(2)[OF P' N _ rm fr, of x] z by auto
  qed
  with hd show ?thesis by simp
qed

subsection \<open>Size and flag in a header\<close>

lemma load_store_lt:
  "unat a + 8 \<le> unat c \<Longrightarrow> unat c + 8 \<le> 2 ^ 64 \<Longrightarrow> load64 (store64 m a v) c = load64 m c"
  by (rule load64_store64_other) auto

lemma load_store_gt:
  "unat c + 8 \<le> unat a \<Longrightarrow> unat a + 8 \<le> 2 ^ 64 \<Longrightarrow> load64 (store64 m a v) c = load64 m c"
  by (rule load64_store64_other) auto

lemma bit0_unat: "bit (w::64 word) 0 = odd (unat w)"
proof -
  have "bit (unat w) 0 = bit w 0" by (simp add: bit_unsigned_iff)
  then show ?thesis by (simp add: bit_0)
qed

lemma even_bit0: "unat (w::64 word) mod 16 = 0 \<Longrightarrow> \<not> bit w 0"
proof -
  assume "unat w mod 16 = 0"
  then have "even (unat w)" by presburger
  then show ?thesis by (simp add: bit0_unat)
qed

lemma flag_cases: "\<not> bit (w::64 word) 0 \<Longrightarrow> bit w n \<Longrightarrow> n \<noteq> 0"
  by (cases n) auto

lemma size_flag:
  assumes "unat (w::64 word) mod 16 = 0"
  shows "(w OR 1) AND NOT 1 = w" "(w OR 1) AND 1 = 1" "(w OR 0) AND NOT 1 = w" "(w OR 0) AND 1 = 0"
        "w AND NOT 1 = w" "w AND 1 = 0"
proof -
  have b0: "\<not> bit w 0" by (rule even_bit0[OF assms])
  show "(w OR 1) AND NOT 1 = w"
    by (rule bit_word_eqI) (use b0 in \<open>auto simp: bit_simps bit_1_iff dest: flag_cases\<close>)
  show "(w OR 1) AND 1 = 1"
    by (rule bit_word_eqI) (use b0 in \<open>auto simp: bit_simps bit_1_iff dest: flag_cases\<close>)
  show "(w OR 0) AND NOT 1 = w"
    by (rule bit_word_eqI) (use b0 in \<open>auto simp: bit_simps bit_1_iff dest: flag_cases\<close>)
  show "(w OR 0) AND 1 = 0"
    by (rule bit_word_eqI) (use b0 in \<open>auto simp: bit_simps bit_1_iff dest: flag_cases\<close>)
  show "w AND NOT 1 = w"
    by (rule bit_word_eqI) (use b0 in \<open>auto simp: bit_simps bit_1_iff dest: flag_cases\<close>)
  show "w AND 1 = 0"
    by (rule bit_word_eqI) (use b0 in \<open>auto simp: bit_simps bit_1_iff dest: flag_cases\<close>)
qed

subsection \<open>Splitting a block\<close>

lemma dll_change_prev:
  assumes "dll m pr p fl" "distinct fl"
    and "\<And>x. x \<in> set fl \<Longrightarrow> next_of m' x = next_of m x"
    and "\<And>x. x \<in> set fl \<Longrightarrow> prev_of m' x = (if x = p then pr' else prev_of m x)"
  shows "dll m' pr' p fl"
proof (cases fl)
  case Nil
  with assms(1) show ?thesis by simp
next
  case (Cons x xs)
  with assms(1) have px: "p = x" and x0: "x \<noteq> 0" and d: "dll m x (next_of m x) xs"
    by auto
  have "dll m' x (next_of m x) xs = dll m x (next_of m x) xs"
  proof (rule dll_cong)
    fix z assume "z \<in> set xs"
    with assms(2) Cons px have "z \<in> set fl" "z \<noteq> p" by auto
    with assms(3)[of z] assms(4)[of z]
    show "prev_of m' z = prev_of m z \<and> next_of m' z = next_of m z" by simp
  qed
  with d assms(3)[of x] assms(4)[of x] px x0 Cons show ?thesis by simp
qed

lemma split_helper_fields [simp]:
  "mem_brk (split_helper s b sp sz ssz) = mem_brk s"
  "mem_max_addr (split_helper s b sp sz ssz) = mem_max_addr s"
  "mm_heap_first (split_helper s b sp sz ssz) = mm_heap_first s"
  "head (split_helper s b sp sz ssz) = sp"
  by (simp_all add: split_helper_def add_block_def Let_def)

lemma split_helper_mem:
  "mem (split_helper s b sp sz ssz) =
     (let m2 = set_header (mem s) b sz True;
          m3 = set_header m2 sp ssz False;
          m5 = set_next (set_prev m3 sp 0) sp (head s)
      in if head s = 0 then m5 else set_prev m5 (head s) sp)"
  by (simp add: split_helper_def add_block_def Let_def)

lemma split_geometry:
  fixes b nd zb :: "64 word"
  assumes g: "unat b + unat zb + 32 \<le> 2 ^ 64" "16 \<le> unat nd" "unat nd + 32 \<le> unat zb"
  shows "unat (b + nd) = unat b + unat nd"
    and "unat (b + nd - 8) = unat b + unat nd - 8"
    and "unat (b + nd + 8) = unat b + unat nd + 8"
    and "unat (b + nd + 16) = unat b + unat nd + 16"
    and "unat (b + zb - 8) = unat b + unat zb - 8"
    and "b + nd + (zb - nd) - 8 = b + zb - 8"
    and "unat (zb - nd) = unat zb - unat nd"
proof -
  show 1: "unat (b + nd) = unat b + unat nd"
    using g by (intro unat_plus) simp
  show "unat (b + nd - 8) = unat b + unat nd - 8"
    using g 1 unat_minus[of 8 "b + nd"] by simp
  show "unat (b + nd + 8) = unat b + unat nd + 8"
    using g 1 unat_plus[of "b + nd" 8] by simp
  show "unat (b + nd + 16) = unat b + unat nd + 16"
    using g 1 unat_plus[of "b + nd" 16] by simp
  have 2: "unat (b + zb) = unat b + unat zb"
    using g by (intro unat_plus) simp
  show "unat (b + zb - 8) = unat b + unat zb - 8"
    using g 2 unat_minus[of 8 "b + zb"] by simp
  show "b + nd + (zb - nd) - 8 = b + zb - 8" by simp
  show "unat (zb - nd) = unat zb - unat nd"
    using g by (intro unat_minus) simp
qed

lemma split_helper_loads:
  fixes b nd zb :: "64 word"
  assumes g: "unat b + unat zb + 32 \<le> 2 ^ 64" "16 \<le> unat nd" "unat nd + 32 \<le> unat zb"
    and h: "head s1 = 0 \<or>
            (room (head s1) \<and> (unat (head s1) + 32 \<le> unat b \<or> unat b + unat zb \<le> unat (head s1)))"
  defines "s' \<equiv> split_helper s1 b (b + nd) nd (zb - nd)"
  shows "load64 (mem s') b = nd OR 1"
    and "load64 (mem s') (b + nd - 8) = nd"
    and "load64 (mem s') (b + nd) = zb - nd"
    and "load64 (mem s') (b + zb - 8) = zb - nd"
    and "prev_of (mem s') (b + nd) = 0"
    and "next_of (mem s') (b + nd) = head s1"
proof -
  note u = split_geometry[OF g]
  note ls = load_store_lt load_store_gt
  define m5 where "m5 = set_next (set_prev (set_header (set_header (mem s1) b nd True) (b + nd) (zb - nd) False) (b + nd) 0) (b + nd) (head s1)"
  have m': "mem s' = (if head s1 = 0 then m5 else set_prev m5 (head s1) (b + nd))"
    by (simp add: s'_def split_helper_mem m5_def Let_def)
  have a: "load64 m5 b = nd OR 1" "load64 m5 (b + nd - 8) = nd" "load64 m5 (b + nd) = zb - nd"
      "load64 m5 (b + zb - 8) = zb - nd" "load64 m5 (b + nd + 8) = 0" "load64 m5 (b + nd + 16) = head s1"
    using g unfolding m5_def set_header_def set_prev_def set_next_def sizeof_footer_def
    by (simp_all add: u ls)
  have k: "load64 (mem s') c = load64 m5 c"
    if "unat b \<le> unat c" "unat c + 8 \<le> unat b + unat zb" for c
  proof (cases "head s1 = 0")
    case True
    then show ?thesis by (simp add: m')
  next
    case False
    with h have r: "room (head s1)"
      and d: "unat (head s1) + 32 \<le> unat b \<or> unat b + unat zb \<le> unat (head s1)"
      by auto
    from d show ?thesis
    proof
      assume "unat (head s1) + 32 \<le> unat b"
      with that r g False show ?thesis
        by (simp add: m' set_prev_def room8 ls room_def)
    next
      assume "unat b + unat zb \<le> unat (head s1)"
      with that r g False show ?thesis
        by (simp add: m' set_prev_def room8 ls room_def)
    qed
  qed
  show "load64 (mem s') b = nd OR 1"
    using g by (subst k) (simp_all add: a)
  show "load64 (mem s') (b + nd - 8) = nd"
    using g by (subst k) (simp_all add: a u)
  show "load64 (mem s') (b + nd) = zb - nd"
    using g by (subst k) (simp_all add: a u)
  show "load64 (mem s') (b + zb - 8) = zb - nd"
    using g by (subst k) (simp_all add: a u)
  show "prev_of (mem s') (b + nd) = 0"
    unfolding prev_of_def using g by (subst k) (simp_all add: a u)
  show "next_of (mem s') (b + nd) = head s1"
    unfolding next_of_def using g by (subst k) (simp_all add: a u)
qed

lemma split_helper_other:
  fixes b nd zb :: "64 word"
  assumes g: "unat b + unat zb + 32 \<le> 2 ^ 64" "16 \<le> unat nd" "unat nd + 32 \<le> unat zb"
    and c: "unat c + 8 \<le> 2 ^ 64" "unat c + 8 \<le> unat b \<or> unat b + unat zb \<le> unat c"
    and ch: "head s1 = 0 \<or> (room (head s1) \<and> (unat c \<le> unat (head s1) \<or> unat (head s1) + 16 \<le> unat c))"
  shows "load64 (mem (split_helper s1 b (b + nd) nd (zb - nd))) c = load64 (mem s1) c"
proof -
  note u = split_geometry[OF g]
  note ls = load_store_lt load_store_gt
  define m5 where "m5 = set_next (set_prev (set_header (set_header (mem s1) b nd True) (b + nd) (zb - nd) False) (b + nd) 0) (b + nd) (head s1)"
  have m': "mem (split_helper s1 b (b + nd) nd (zb - nd)) = (if head s1 = 0 then m5 else set_prev m5 (head s1) (b + nd))"
    by (simp add: split_helper_mem m5_def Let_def)
  have a: "load64 m5 c = load64 (mem s1) c"
    using c(2)
  proof
    assume "unat c + 8 \<le> unat b"
    with g c(1) show ?thesis
      unfolding m5_def set_header_def set_prev_def set_next_def sizeof_footer_def
      by (simp add: u ls)
  next
    assume "unat b + unat zb \<le> unat c"
    with g c(1) show ?thesis
      unfolding m5_def set_header_def set_prev_def set_next_def sizeof_footer_def
      by (simp add: u ls)
  qed
  show ?thesis
  proof (cases "head s1 = 0")
    case True
    then show ?thesis by (simp add: m' a)
  next
    case False
    with ch have r: "room (head s1)"
      and d: "unat c \<le> unat (head s1) \<or> unat (head s1) + 16 \<le> unat c"
      by auto
    from d show ?thesis
    proof
      assume "unat c \<le> unat (head s1)"
      with r c(1) False show ?thesis
        by (simp add: m' set_prev_def room8 ls room_def a)
    next
      assume "unat (head s1) + 16 \<le> unat c"
      with r c(1) False show ?thesis
        by (simp add: m' set_prev_def room8 ls room_def a)
    qed
  qed
qed

lemma split_helper_old_head:
  "head s1 \<noteq> 0 \<Longrightarrow> prev_of (mem (split_helper s1 b sp sz ssz)) (head s1) = sp"
  by (simp add: split_helper_mem Let_def prev_of_def set_prev_def)

lemma wf_room: "free_list_wf s fl \<Longrightarrow> x \<in> set fl \<Longrightarrow> room x"
  by (auto simp: free_list_wf_def list_all_iff block_ok_def room_def)

lemma wf_far: "free_list_wf s fl \<Longrightarrow> x \<in> set fl \<Longrightarrow> y \<in> set fl \<Longrightarrow> x = y \<or> far x y"
  unfolding free_list_wf_def list_all_iff block_ok_def far_def apart_def
  by fastforce

lemma wf_block: "free_list_wf s fl \<Longrightarrow> x \<in> set fl \<Longrightarrow> block_ok (mem s) x"
  by (auto simp: free_list_wf_def list_all_iff)

lemma wf_apart:
  "free_list_wf s fl \<Longrightarrow> x \<in> set fl \<Longrightarrow> b \<in> set fl \<Longrightarrow> x \<noteq> b \<Longrightarrow>
   unat x + 32 \<le> unat b \<or> unat b + unat (get_size (mem s) b) \<le> unat x"
  unfolding free_list_wf_def list_all_iff block_ok_def apart_def
  by fastforce

lemma wf_dll: "free_list_wf s fl \<Longrightarrow> dll (mem s) 0 (head s) fl"
  by (simp add: free_list_wf_def)

lemma wf_distinct: "free_list_wf s fl \<Longrightarrow> distinct fl"
  by (simp add: free_list_wf_def)

subsection \<open>Placing a request in a block of the free list\<close>

lemma splits_iff:
  "unat nd + 16 < 2 ^ 64 \<Longrightarrow> splits zb nd = (unat nd + 16 < unat zb)"
proof -
  assume a: "unat nd + 16 < 2 ^ 64"
  have "unat (8 + nd) = 8 + unat nd"
    using a unat_plus[of 8 nd] by simp
  then have "unat (8 + nd + 8) = unat nd + 16"
    using a unat_plus[of "8 + nd" 8] by simp
  then show ?thesis
    by (simp add: splits_def sizeof_block_def sizeof_footer_def word_less_nat_alt)
qed

lemma unlinked:
  assumes wf: "free_list_wf s fl" and b: "b \<in> set fl"
  shows "dll (mem (remove_block s b)) 0 (head (remove_block s b)) (remove1 b fl)"
    and "load64 (mem (remove_block s b)) b = load64 (mem s) b"
    and "get_size (mem (remove_block s b)) b = get_size (mem s) b"
proof -
  have rm: "\<forall>x\<in>set fl. room x" using wf_room[OF wf] by simp
  have fr: "\<forall>x\<in>set fl. \<forall>y\<in>set fl. x = y \<or> far x y" using wf_far[OF wf] by simp
  show "dll (mem (remove_block s b)) 0 (head (remove_block s b)) (remove1 b fl)"
    by (rule remove_block_dll[OF wf_dll[OF wf] b wf_distinct[OF wf] rm fr])
  have P: "prev_of (mem s) b = 0 \<or> prev_of (mem s) b \<in> set fl"
    using dll_prev_in[OF wf_dll[OF wf] b] by auto
  have N: "next_of (mem s) b = 0 \<or> next_of (mem s) b \<in> set fl"
    by (rule dll_next_in[OF wf_dll[OF wf] b])
  show "load64 (mem (remove_block s b)) b = load64 (mem s) b"
    by (rule remove_block_links(3)[OF P N b rm fr])
  then show "get_size (mem (remove_block s b)) b = get_size (mem s) b"
    by (simp add: get_size_def)
qed

lemma unlinked_head:
  assumes wf: "free_list_wf s fl" and b: "b \<in> set fl"
  shows "head (remove_block s b) = 0 \<or>
         (head (remove_block s b) \<in> set fl \<and> head (remove_block s b) \<noteq> b)"
proof -
  have st: "set (remove1 b fl) = set fl - {b}"
    using wf_distinct[OF wf] by (rule set_remove1_eq)
  show ?thesis
  proof (cases "remove1 b fl")
    case Nil
    with dll_head[OF unlinked(1)[OF wf b]] show ?thesis by simp
  next
    case (Cons y ys)
    with dll_head[OF unlinked(1)[OF wf b]] have "head (remove_block s b) = y" by simp
    moreover from Cons st have "y \<in> set fl - {b}" by auto
    ultimately show ?thesis by simp
  qed
qed

lemma step16: "(a::nat) mod 16 = 0 \<Longrightarrow> c mod 16 = 0 \<Longrightarrow> a + 16 < c \<Longrightarrow> a + 32 \<le> c"
  by presburger

lemma place_split:
  assumes wf: "free_list_wf s fl" and b: "b \<in> set fl"
    and nd: "16 \<le> unat nd" "unat nd mod 16 = 0" "unat nd + 16 < unat (get_size (mem s) b)"
  shows "load64 (mem (place s b nd)) b = nd OR 1"
    and "load64 (mem (place s b nd)) (b + nd - 8) = nd"
    and "load64 (mem (place s b nd)) (b + nd) = get_size (mem s) b - nd"
    and "load64 (mem (place s b nd)) (b + get_size (mem s) b - 8) = get_size (mem s) b - nd"
    and "head (place s b nd) = b + nd"
    and "dll (mem (place s b nd)) 0 (head (place s b nd)) ((b + nd) # remove1 b fl)"
    and "mem_brk (place s b nd) = mem_brk s"
proof -
  define zb where "zb = get_size (mem s) b"
  define s1 where "s1 = remove_block s b"
  have ok: "block_ok (mem s) b" by (rule wf_block[OF wf b])
  have g: "unat b + unat zb + 32 \<le> 2 ^ 64" "16 \<le> unat nd" "unat nd + 32 \<le> unat zb"
    using ok nd step16[of "unat nd" "unat zb"] unfolding block_ok_def zb_def by simp_all
  have sz1: "get_size (mem s1) b = zb"
    unfolding s1_def zb_def by (rule unlinked(3)[OF wf b])
  have "splits zb nd"
    using g nd by (subst splits_iff) (simp_all add: zb_def)
  then have pl: "place s b nd = split_helper s1 b (b + nd) nd (zb - nd)"
    by (simp add: place_def Let_def s1_def[symmetric] sz1)
  have hd: "head s1 = 0 \<or> (head s1 \<in> set fl \<and> head s1 \<noteq> b)"
    unfolding s1_def by (rule unlinked_head[OF wf b])
  have h: "head s1 = 0 \<or>
           (room (head s1) \<and> (unat (head s1) + 32 \<le> unat b \<or> unat b + unat zb \<le> unat (head s1)))"
    using hd wf_room[OF wf] wf_apart[OF wf _ b] unfolding zb_def by blast
  note l = split_helper_loads[OF g h]
  show "load64 (mem (place s b nd)) b = nd OR 1" by (simp add: pl l)
  show "load64 (mem (place s b nd)) (b + nd - 8) = nd" by (simp add: pl l)
  show "load64 (mem (place s b nd)) (b + nd) = get_size (mem s) b - nd"
    by (simp add: pl l zb_def[symmetric])
  show "load64 (mem (place s b nd)) (b + get_size (mem s) b - 8) = get_size (mem s) b - nd"
    by (simp add: pl l zb_def[symmetric])
  show "head (place s b nd) = b + nd" by (simp add: pl)
  show "mem_brk (place s b nd) = mem_brk s" by (simp add: pl s1_def)
  have d1: "dll (mem s1) 0 (head s1) (remove1 b fl)"
    unfolding s1_def by (rule unlinked(1)[OF wf b])
  have st: "set (remove1 b fl) = set fl - {b}"
    using wf_distinct[OF wf] by (rule set_remove1_eq)
  have "dll (mem (place s b nd)) (b + nd) (head s1) (remove1 b fl)"
  proof (rule dll_change_prev[OF d1])
    show "distinct (remove1 b fl)" using wf_distinct[OF wf] by simp
  next
    fix x assume "x \<in> set (remove1 b fl)"
    with st have x: "x \<in> set fl" "x \<noteq> b" by auto
    have rx: "room x" by (rule wf_room[OF wf x(1)])
    have ax: "unat x + 32 \<le> unat b \<or> unat b + unat zb \<le> unat x"
      unfolding zb_def by (rule wf_apart[OF wf x(1) b x(2)])
    have hx: "head s1 = 0 \<or> (room (head s1) \<and> (x = head s1 \<or> far x (head s1)))"
      using hd wf_room[OF wf] wf_far[OF wf x(1)] by blast
    show "next_of (mem (place s b nd)) x = next_of (mem s1) x"
      unfolding pl next_of_def
      apply (rule split_helper_other[OF g])
      using rx ax hx by (auto simp: room16 room_def far_def)
    show "prev_of (mem (place s b nd)) x = (if x = head s1 then b + nd else prev_of (mem s1) x)"
    proof (cases "x = head s1")
      case True
      with dll_not_null[OF wf_dll[OF wf]] x(1) have "head s1 \<noteq> 0" by auto
      with True show ?thesis by (simp add: pl split_helper_old_head)
    next
      case False
      have "prev_of (mem (place s b nd)) x = prev_of (mem s1) x"
        unfolding pl prev_of_def
        apply (rule split_helper_other[OF g])
        using rx ax hx False by (auto simp: room8 room_def far_def)
      with False show ?thesis by simp
    qed
  qed
  moreover have "b + nd \<noteq> 0"
    using split_geometry(1)[OF g] g by (auto simp: unat_eq_zero[symmetric] simp del: unat_eq_zero)
  ultimately show "dll (mem (place s b nd)) 0 (head (place s b nd)) ((b + nd) # remove1 b fl)"
    using l(5,6) by (simp add: pl)
qed

lemma set_header_loads:
  fixes b zb :: "64 word"
  assumes g: "unat b + unat zb < 2 ^ 64" "16 \<le> unat zb"
  shows "load64 (set_header m b zb a) b = (zb OR (if a then 1 else 0))"
    and "load64 (set_header m b zb a) (b + zb - 8) = zb"
proof -
  have 2: "unat (b + zb) = unat b + unat zb"
    using g by (intro unat_plus) simp
  have 3: "unat (b + zb - 8) = unat b + unat zb - 8"
    using g 2 unat_minus[of 8 "b + zb"] by simp
  show "load64 (set_header m b zb a) b = (zb OR (if a then 1 else 0))"
    using g unfolding set_header_def sizeof_footer_def
    by (simp add: load_store_gt 3)
  show "load64 (set_header m b zb a) (b + zb - 8) = zb"
    unfolding set_header_def sizeof_footer_def by simp
qed

lemma set_header_other:
  fixes b zb :: "64 word"
  assumes g: "unat b + unat zb + 32 \<le> 2 ^ 64" "8 \<le> unat zb"
    and c: "unat c + 8 \<le> 2 ^ 64" "unat c + 8 \<le> unat b \<or> unat b + unat zb \<le> unat c"
  shows "load64 (set_header m b zb a) c = load64 m c"
proof -
  have 2: "unat (b + zb) = unat b + unat zb"
    using g by (intro unat_plus) simp
  have 3: "unat (b + zb - 8) = unat b + unat zb - 8"
    using g 2 unat_minus[of 8 "b + zb"] by simp
  from c(2) show ?thesis
  proof
    assume "unat c + 8 \<le> unat b"
    with g c(1) show ?thesis
      unfolding set_header_def sizeof_footer_def by (simp add: load_store_lt load_store_gt 3)
  next
    assume "unat b + unat zb \<le> unat c"
    with g c(1) show ?thesis
      unfolding set_header_def sizeof_footer_def by (simp add: load_store_lt load_store_gt 3)
  qed
qed

lemma place_whole:
  assumes wf: "free_list_wf s fl" and b: "b \<in> set fl"
    and nd: "unat nd \<le> unat (get_size (mem s) b)" "\<not> unat nd + 16 < unat (get_size (mem s) b)"
  shows "load64 (mem (place s b nd)) b = get_size (mem s) b OR 1"
    and "load64 (mem (place s b nd)) (b + get_size (mem s) b - 8) = get_size (mem s) b"
    and "head (place s b nd) = head (remove_block s b)"
    and "dll (mem (place s b nd)) 0 (head (place s b nd)) (remove1 b fl)"
    and "mem_brk (place s b nd) = mem_brk s"
proof -
  define zb where "zb = get_size (mem s) b"
  define s1 where "s1 = remove_block s b"
  have ok: "block_ok (mem s) b" by (rule wf_block[OF wf b])
  have g: "unat b + unat zb + 32 \<le> 2 ^ 64" "16 \<le> unat zb" "8 \<le> unat zb"
    using ok unfolding block_ok_def zb_def by simp_all
  from g(1) have g': "unat b + unat zb < 2 ^ 64" by simp
  have sz1: "get_size (mem s1) b = zb"
    unfolding s1_def zb_def by (rule unlinked(3)[OF wf b])
  have "\<not> splits zb nd"
    using g nd by (subst splits_iff) (simp_all add: zb_def)
  then have pl: "place s b nd = s1\<lparr>mem := set_header (mem s1) b zb True\<rparr>"
    by (simp add: place_def Let_def s1_def[symmetric] sz1)
  show "load64 (mem (place s b nd)) b = get_size (mem s) b OR 1"
    using set_header_loads(1)[OF g' g(2)] by (simp add: pl zb_def)
  show "load64 (mem (place s b nd)) (b + get_size (mem s) b - 8) = get_size (mem s) b"
    using set_header_loads(2)[OF g' g(2)] by (simp add: pl zb_def)
  show "head (place s b nd) = head (remove_block s b)" by (simp add: pl s1_def)
  show "mem_brk (place s b nd) = mem_brk s" by (simp add: pl s1_def)
  have d1: "dll (mem s1) 0 (head s1) (remove1 b fl)"
    unfolding s1_def by (rule unlinked(1)[OF wf b])
  have st: "set (remove1 b fl) = set fl - {b}"
    using wf_distinct[OF wf] by (rule set_remove1_eq)
  have "dll (mem (place s b nd)) 0 (head s1) (remove1 b fl) = dll (mem s1) 0 (head s1) (remove1 b fl)"
  proof (rule dll_cong)
    fix x assume "x \<in> set (remove1 b fl)"
    with st have x: "x \<in> set fl" "x \<noteq> b" by auto
    have rx: "room x" by (rule wf_room[OF wf x(1)])
    have ax: "unat x + 32 \<le> unat b \<or> unat b + unat zb \<le> unat x"
      unfolding zb_def by (rule wf_apart[OF wf x(1) b x(2)])
    have "load64 (set_header (mem s1) b zb True) (x + 8) = load64 (mem s1) (x + 8)"
      apply (rule set_header_other[OF g(1,3)])
      using rx ax by (auto simp: room8 room_def)
    moreover have "load64 (set_header (mem s1) b zb True) (x + 16) = load64 (mem s1) (x + 16)"
      apply (rule set_header_other[OF g(1,3)])
      using rx ax by (auto simp: room16 room_def)
    ultimately show "prev_of (mem (place s b nd)) x = prev_of (mem s1) x \<and>
        next_of (mem (place s b nd)) x = next_of (mem s1) x"
      by (simp add: pl prev_of_def next_of_def)
  qed
  with d1 show "dll (mem (place s b nd)) 0 (head (place s b nd)) (remove1 b fl)"
    by (simp add: pl)
qed

subsection \<open>The needed size and the search\<close>

lemma need_unbounded_bound: "need_unbounded n < 2 ^ 64 \<Longrightarrow> unat n + 31 < 2 ^ 64"
proof (rule ccontr)
  assume a: "need_unbounded n < 2 ^ 64" and "\<not> unat n + 31 < 2 ^ 64"
  then have "(2::nat) ^ 64 \<le> unat n + 31" by simp
  then have "(2::nat) ^ 64 div 16 * 16 \<le> (unat n + 31) div 16 * 16"
    by (intro mult_le_mono1 div_le_mono)
  with a show False by (simp add: need_unbounded_def)
qed

lemma need_eq:
  assumes "need_unbounded n < 2 ^ 64"
  shows "unat (need n) = need_unbounded n"
proof -
  have b: "unat n + 31 < 2 ^ 64" by (rule need_unbounded_bound[OF assms])
  have 1: "unat (8 + n) = 8 + unat n"
    using b unat_plus[of 8 n] by simp
  have 2: "unat (8 + n + 8) = unat n + 16"
    using b 1 unat_plus[of "8 + n" 8] by simp
  have 3: "unat (8 + n + 8 + 15) = unat n + 31"
    using b 2 unat_plus[of "8 + n + 8" 15] by simp
  have 4: "unat ((8 + n + 8 + 15) div 16) = (unat n + 31) div 16"
    using 3 by (simp add: unat_div)
  have "(unat n + 31) div 16 * 16 \<le> unat n + 31" by simp
  with b have 5: "(unat n + 31) div 16 * 16 < 2 ^ 64" by linarith
  have "unat ((8 + n + 8 + 15) div 16 * 16) = (unat n + 31) div 16 * 16"
    using 4 5 by (simp add: unat_mult_lem[THEN iffD1])
  then show ?thesis
    by (simp add: need_def round_up_def sizeof_block_def sizeof_footer_def ALIGNMENT_def need_unbounded_def)
qed

lemma need_unbounded_props: "16 \<le> need_unbounded n" "need_unbounded n mod 16 = 0"
  by (simp_all add: need_unbounded_def)

lemma find_cong_set: "(\<And>x. x \<in> set xs \<Longrightarrow> P x = Q x) \<Longrightarrow> find P xs = find Q xs"
  by (induction xs) auto

lemma find_in: "find P xs = Some b \<Longrightarrow> b \<in> set xs \<and> P b"
  by (induction xs) (auto split: if_splits)

lemma fit_found:
  assumes wf: "free_list_wf s fl"
    and fit: "find (\<lambda>x. need_unbounded n \<le> unat (get_size (mem s) x)) fl = Some b"
  shows "b \<in> set fl" and "unat (need n) = need_unbounded n"
    and "unat (need n) \<le> unat (get_size (mem s) b)"
    and "mm_malloc s n = Some (place s b (need n), payload b)"
proof -
  from find_in[OF fit] show b: "b \<in> set fl" by simp
  from find_in[OF fit] have le: "need_unbounded n \<le> unat (get_size (mem s) b)" by simp
  have "unat (get_size (mem s) b) < 2 ^ 64" using unsigned_less[of "get_size (mem s) b"] by simp
  with le have "need_unbounded n < 2 ^ 64" by linarith
  then show ne: "unat (need n) = need_unbounded n" by (rule need_eq)
  with le show "unat (need n) \<le> unat (get_size (mem s) b)" by simp
  have "find (\<lambda>x. need n \<le> get_size (mem s) x) fl = Some b"
    using fit ne by (simp add: word_le_nat_alt)
  then have "find_fit s (need n) = Some b"
    using find_fit_from_dll[OF wf_dll[OF wf], of "need n"] by (simp add: find_fit_def)
  moreover have "b \<noteq> 0" using wf_block[OF wf b] by (simp add: block_ok_def)
  ultimately show "mm_malloc s n = Some (place s b (need n), payload b)"
    by (simp add: mm_malloc_def Let_def)
qed

lemma flag_set: "((w::64 word) OR 1) AND 1 = 1"
  by (rule bit_word_eqI) (auto simp: bit_simps bit_1_iff)

lemma minimum_block_size_eq: "minimum_block_size = 32"
  by (simp add: minimum_block_size_def round_up_def sizeof_free_block_def sizeof_footer_def ALIGNMENT_def)


lemma header_allocated:
  "load64 m b = w OR 1 \<Longrightarrow> unat w mod 16 = 0 \<Longrightarrow> get_size m b = w \<and> is_allocated m b"
  unfolding get_size_def is_allocated_def
  by (simp only: size_flag flag_set) simp

lemma header_free:
  "load64 m b = w \<Longrightarrow> unat w mod 16 = 0 \<Longrightarrow> get_size m b = w \<and> \<not> is_allocated m b"
  unfolding get_size_def is_allocated_def
  by (simp only: size_flag) simp

subsection \<open>Extending the heap\<close>



subsection \<open>The layout of the heap\<close>

lemma layout_lower:
  "layout m a bs \<Longrightarrow> u \<in> set bs \<Longrightarrow> unat a \<le> unat u"
proof (induction bs arbitrary: a)
  case Nil
  then show ?case by simp
next
  case (Cons x xs)
  show ?case
  proof (cases "u = x")
    case True
    with Cons.prems show ?thesis by simp
  next
    case False
    with Cons.prems have u: "u \<in> set xs" and l: "layout m (x + get_size m x) xs"
      and ok: "block_ok m x" and xa: "x = a" by auto
    have "unat (x + get_size m x) = unat x + unat (get_size m x)"
      using ok by (intro unat_plus) (simp add: block_ok_def)
    with Cons.IH[OF l u] xa show ?thesis by simp
  qed
qed

lemma layout_block_ok:
  "layout m a bs \<Longrightarrow> u \<in> set bs \<Longrightarrow> block_ok m u \<and> footer_of m u = get_size m u"
  by (induction bs arbitrary: a) auto

lemma layout_apart:
  "layout m a bs \<Longrightarrow> u \<in> set bs \<Longrightarrow> v \<in> set bs \<Longrightarrow> u = v \<or> apart m u v"
proof (induction bs arbitrary: a)
  case Nil
  then show ?case by simp
next
  case (Cons x xs)
  from Cons.prems have l: "layout m (x + get_size m x) xs" and ok: "block_ok m x" by auto
  have e: "unat (x + get_size m x) = unat x + unat (get_size m x)"
    using ok by (intro unat_plus) (simp add: block_ok_def)
  have far: "apart m x w \<and> apart m w x" if "w \<in> set xs" for w
    using layout_lower[OF l that] e by (simp add: apart_def)
  show ?case
  proof (cases "u = x")
    case True
    with Cons.prems far show ?thesis by auto
  next
    case False
    note ux = this
    show ?thesis
    proof (cases "v = x")
      case True
      with Cons.prems far ux show ?thesis by auto
    next
      case False
      with ux Cons.prems Cons.IH[OF l] show ?thesis by auto
    qed
  qed
qed

lemma layout_next:
  "layout m a bs \<Longrightarrow> u \<in> set bs \<Longrightarrow> u \<noteq> last bs \<Longrightarrow> u + get_size m u \<in> set bs"
proof (induction bs arbitrary: a)
  case Nil
  then show ?case by simp
next
  case (Cons x xs)
  show ?case
  proof (cases "u = x")
    case True
    with Cons.prems have "xs \<noteq> []" by auto
    then obtain y ys where xs: "xs = y # ys" by (cases xs) auto
    with Cons.prems True show ?thesis by auto
  next
    case False
    with Cons.prems have u: "u \<in> set xs" and l: "layout m (x + get_size m x) xs" by auto
    then have "xs \<noteq> []" by auto
    with Cons.prems have "u \<noteq> last xs" by simp
    from Cons.IH[OF l u this] show ?thesis by simp
  qed
qed

lemma layout_prev:
  "layout m a bs \<Longrightarrow> u \<in> set bs \<Longrightarrow> u \<noteq> a \<Longrightarrow>
   \<exists>q \<in> set bs. q + get_size m q = u"
proof (induction bs arbitrary: a)
  case Nil
  then show ?case by simp
next
  case (Cons x xs)
  from Cons.prems have xa: "x = a" and u: "u \<in> set xs" and l: "layout m (x + get_size m x) xs"
    by auto
  show ?case
  proof (cases "u = x + get_size m x")
    case True
    then show ?thesis by auto
  next
    case False
    from Cons.IH[OF l u False] show ?thesis by auto
  qed
qed

subsection \<open>The writes of free\<close>

lemma geo_room: "geometry L m0 \<Longrightarrow> u \<in> L \<Longrightarrow> room u"
  by (auto simp: geometry_def block_ok_def room_def)

lemma geo_far: "geometry L m0 \<Longrightarrow> u \<in> L \<Longrightarrow> v \<in> L \<Longrightarrow> u = v \<or> far u v"
  unfolding geometry_def block_ok_def far_def apart_def
  by fastforce

lemma geo_ok: "geometry L m0 \<Longrightarrow> u \<in> L \<Longrightarrow> block_ok m0 u"
  by (simp add: geometry_def)

lemma geo_apart: "geometry L m0 \<Longrightarrow> u \<in> L \<Longrightarrow> v \<in> L \<Longrightarrow> u \<noteq> v \<Longrightarrow> apart m0 u v"
  by (auto simp: geometry_def)

text \<open>A cell inside a block of \<open>L\<close>: storing there keeps the bytes outside \<open>L\<close>.\<close>

lemma store_inside:
  assumes fr: "\<forall>x. (\<forall>u\<in>L. \<not> in_block m0 u x) \<longrightarrow> m x = m0 x"
    and u: "u \<in> L" and a: "unat u \<le> unat a" "unat a + 8 \<le> unat u + unat (get_size m0 u)"
    and w: "unat a + 8 \<le> 2 ^ 64"
  shows "\<forall>x. (\<forall>u\<in>L. \<not> in_block m0 u x) \<longrightarrow> store64 m a v x = m0 x"
proof (intro allI impI)
  fix x assume n: "\<forall>u\<in>L. \<not> in_block m0 u x"
  with u have "\<not> in_block m0 u x" by simp
  with a have "unat x < unat a \<or> unat a + 8 \<le> unat x"
    by (auto simp: in_block_def)
  with w have "store64 m a v x = m x" by (rule store64_other_byte)
  with fr n show "store64 m a v x = m0 x" by simp
qed

text \<open>A cell that misses the link fields of a block.\<close>

lemma links_other:
  assumes "room v" "unat a + 8 \<le> 2 ^ 64"
    and "unat a \<le> unat v \<or> unat v + 24 \<le> unat a"
  shows "prev_of (store64 m a w) v = prev_of m v" "next_of (store64 m a w) v = next_of m v"
  using assms unfolding prev_of_def next_of_def
  by (auto intro!: load64_store64_other simp: room8 room16 room_def)

lemma block_footer_addr:
  "block_ok m0 w \<Longrightarrow> unat (w + get_size m0 w - 8) = unat w + unat (get_size m0 w) - 8"
proof -
  assume ok: "block_ok m0 w"
  have 1: "unat (w + get_size m0 w) = unat w + unat (get_size m0 w)"
    using ok by (intro unat_plus) (simp add: block_ok_def)
  show ?thesis
    using ok 1 unat_minus[of 8 "w + get_size m0 w"] by (simp add: block_ok_def)
qed

lemma inv_set_header:
  assumes geo: "geometry L m0" and inv: "frame_inv L m0 m"
    and u: "u \<in> L" and w: "w \<in> L"
    and ft: "u + T - 8 = w + get_size m0 w - 8"
  shows "frame_inv L m0 (set_header m u T f)"
proof -
  define X where "X = (T OR (if f then 1 else 0 :: 64 word))"
  define a where "a = w + get_size m0 w - 8"
  have sh: "set_header m u T f = store64 (store64 m u X) a T"
    by (simp add: set_header_def sizeof_footer_def X_def a_def ft)
  have oku: "block_ok m0 u" and okw: "block_ok m0 w"
    using geo_ok[OF geo] u w by auto
  have ua: "unat a = unat w + unat (get_size m0 w) - 8"
    unfolding a_def by (rule block_footer_addr[OF okw])
  from inv have fr: "\<forall>x. (\<forall>u\<in>L. \<not> in_block m0 u x) \<longrightarrow> m x = m0 x"
    and cl: "\<forall>u\<in>L. (prev_of m u = 0 \<or> prev_of m u \<in> L) \<and> (next_of m u = 0 \<or> next_of m u \<in> L)"
    by (auto simp: frame_inv_def)
  have fr1: "\<forall>x. (\<forall>u\<in>L. \<not> in_block m0 u x) \<longrightarrow> store64 m u X x = m0 x"
    using oku by (intro store_inside[OF fr u]) (auto simp: block_ok_def)
  have fr2: "\<forall>x. (\<forall>u\<in>L. \<not> in_block m0 u x) \<longrightarrow> store64 (store64 m u X) a T x = m0 x"
    using okw ua by (intro store_inside[OF fr1 w]) (auto simp: block_ok_def)
  have l1: "prev_of (store64 m u X) v = prev_of m v \<and> next_of (store64 m u X) v = next_of m v"
    if v: "v \<in> L" for v
  proof -
    have rv: "room v" by (rule geo_room[OF geo v])
    have "unat u \<le> unat v \<or> unat v + 24 \<le> unat u"
    proof (cases "v = u")
      case True
      then show ?thesis by simp
    next
      case False
      with geo_apart[OF geo u v] geo_ok[OF geo v] show ?thesis
        by (auto simp: apart_def block_ok_def)
    qed
    with rv oku show ?thesis
      by (intro conjI links_other) (auto simp: block_ok_def)
  qed
  have l2: "prev_of (store64 m' a T) v = prev_of m' v \<and> next_of (store64 m' a T) v = next_of m' v"
    if v: "v \<in> L" for v m'
  proof -
    have rv: "room v" by (rule geo_room[OF geo v])
    have "unat a \<le> unat v \<or> unat v + 24 \<le> unat a"
    proof (cases "v = w")
      case True
      with okw ua show ?thesis by (auto simp: block_ok_def)
    next
      case False
      with geo_apart[OF geo w v] geo_ok[OF geo v] okw ua show ?thesis
        by (auto simp: apart_def block_ok_def)
    qed
    with rv okw ua show ?thesis
      by (intro conjI links_other) (auto simp: block_ok_def)
  qed
  from cl l1 l2 fr2 show ?thesis
    by (simp add: frame_inv_def sh)
qed

lemma inv_remove_block:
  assumes geo: "geometry L m0" and inv: "frame_inv L m0 (mem s)" and u: "u \<in> L"
  shows "frame_inv L m0 (mem (remove_block s u))"
proof -
  from inv have fr: "\<forall>x. (\<forall>u\<in>L. \<not> in_block m0 u x) \<longrightarrow> mem s x = m0 x"
    and cl: "\<forall>u\<in>L. (prev_of (mem s) u = 0 \<or> prev_of (mem s) u \<in> L) \<and>
                    (next_of (mem s) u = 0 \<or> next_of (mem s) u \<in> L)"
    by (auto simp: frame_inv_def)
  define P where "P = prev_of (mem s) u"
  define N where "N = next_of (mem s) u"
  from cl u have P: "prev_of (mem s) u = 0 \<or> prev_of (mem s) u \<in> L"
    and N: "next_of (mem s) u = 0 \<or> next_of (mem s) u \<in> L" by auto
  have rm: "\<forall>x\<in>L. room x" using geo_room[OF geo] by simp
  have far: "\<forall>x\<in>L. \<forall>y\<in>L. x = y \<or> far x y" using geo_far[OF geo] by simp
  note rl = remove_block_links[OF P N _ rm far]
  have cl': "\<forall>v\<in>L. (prev_of (mem (remove_block s u)) v = 0 \<or> prev_of (mem (remove_block s u)) v \<in> L) \<and>
                    (next_of (mem (remove_block s u)) v = 0 \<or> next_of (mem (remove_block s u)) v \<in> L)"
    using cl P N by (auto simp: rl)
  define m1 where "m1 = (if P \<noteq> 0 then set_next (mem s) P N else mem s)"
  have mm: "mem (remove_block s u) = (if N \<noteq> 0 then set_prev m1 N P else m1)"
    by (simp add: remove_block_mem Let_def m1_def P_def N_def)
  have f1: "\<forall>x. (\<forall>u\<in>L. \<not> in_block m0 u x) \<longrightarrow> m1 x = m0 x"
  proof (cases "P = 0")
    case True
    with fr show ?thesis by (simp add: m1_def)
  next
    case False
    with P have PL: "P \<in> L" by (simp add: P_def)
    have ok: "block_ok m0 P" by (rule geo_ok[OF geo PL])
    have "\<forall>x. (\<forall>u\<in>L. \<not> in_block m0 u x) \<longrightarrow> store64 (mem s) (P + 16) N x = m0 x"
      using ok room16[OF geo_room[OF geo PL]]
      by (intro store_inside[OF fr PL]) (auto simp: block_ok_def)
    with False show ?thesis by (simp add: m1_def set_next_def)
  qed
  have f2: "\<forall>x. (\<forall>u\<in>L. \<not> in_block m0 u x) \<longrightarrow> mem (remove_block s u) x = m0 x"
  proof (cases "N = 0")
    case True
    with f1 show ?thesis by (simp add: mm)
  next
    case False
    with N have NL: "N \<in> L" by (simp add: N_def)
    have ok: "block_ok m0 N" by (rule geo_ok[OF geo NL])
    have "\<forall>x. (\<forall>u\<in>L. \<not> in_block m0 u x) \<longrightarrow> store64 m1 (N + 8) P x = m0 x"
      using ok room8[OF geo_room[OF geo NL]]
      by (intro store_inside[OF f1 NL]) (auto simp: block_ok_def)
    with False show ?thesis by (simp add: mm set_prev_def)
  qed
  from cl' f2 show ?thesis by (simp add: frame_inv_def)
qed

lemma add_block_mem:
  "mem (add_block s b) =
     (if head s = 0 then set_next (set_prev (mem s) b 0) b 0
      else set_prev (set_next (set_prev (mem s) b 0) b (head s)) (head s) b)"
  by (simp add: add_block_def Let_def)

lemma add_block_fields [simp]:
  "head (add_block s b) = b"
  "mm_heap_first (add_block s b) = mm_heap_first s"
  "mm_heap_last (add_block s b) = mm_heap_last s"
  "mem_brk (add_block s b) = mem_brk s"
  by (simp_all add: add_block_def Let_def)

text \<open>\<^verbatim>\<open>add_block\<close> writes link fields only: words that miss them keep their value.\<close>

lemma add_block_load:
  assumes "room b" "head s = 0 \<or> room (head s)" "unat c + 8 \<le> 2 ^ 64"
    and "unat c + 8 \<le> unat b + 8 \<or> unat b + 24 \<le> unat c"
    and "head s = 0 \<or> unat c + 8 \<le> unat (head s) + 8 \<or> unat (head s) + 16 \<le> unat c"
  shows "load64 (mem (add_block s b)) c = load64 (mem s) c"
proof -
  have 1: "load64 (store64 m (b + 8) v) c = load64 m c" for m v
    using assms(1,3,4) by (intro load64_store64_other) (auto simp: room8 room_def)
  have 2: "load64 (store64 m (b + 16) v) c = load64 m c" for m v
    using assms(1,3,4) by (intro load64_store64_other) (auto simp: room16 room_def)
  have 3: "load64 (store64 m (head s + 8) v) c = load64 m c" if "head s \<noteq> 0" for m v
    using assms(2,3,5) that by (intro load64_store64_other) (auto simp: room8 room_def)
  show ?thesis
    by (simp add: add_block_mem set_prev_def set_next_def 1 2 3)
qed

lemma inv_add_block:
  assumes geo: "geometry (insert b F) m0" and bF: "b \<notin> F"
    and cl: "\<forall>v\<in>F. (prev_of (mem s) v = 0 \<or> prev_of (mem s) v \<in> F) \<and>
                    (next_of (mem s) v = 0 \<or> next_of (mem s) v \<in> F)"
    and hd: "head s = 0 \<or> head s \<in> F" and m0: "mem s = m0"
  shows "frame_inv (insert b F) m0 (mem (add_block s b))"
proof -
  define L where "L = insert b F"
  have bL: "b \<in> L" and FL: "\<And>v. v \<in> F \<Longrightarrow> v \<in> L" and LD: "\<And>v. v \<in> L \<Longrightarrow> v \<noteq> b \<Longrightarrow> v \<in> F"
    by (auto simp: L_def)
  have geo: "geometry L m0" using geo by (simp add: L_def)
  have rb: "room b" by (rule geo_room[OF geo bL])
  have okb: "block_ok m0 b" by (rule geo_ok[OF geo bL])
  have fr0: "\<forall>x. (\<forall>u\<in>L. \<not> in_block m0 u x) \<longrightarrow> mem s x = m0 x"
    by (simp add: m0)
  have f1: "\<forall>x. (\<forall>u\<in>L. \<not> in_block m0 u x) \<longrightarrow> store64 (mem s) (b + 8) 0 x = m0 x"
    using okb room8[OF rb] by (intro store_inside[OF fr0 bL]) (auto simp: block_ok_def)
  have f2: "\<forall>x. (\<forall>u\<in>L. \<not> in_block m0 u x) \<longrightarrow>
              store64 (store64 (mem s) (b + 8) 0) (b + 16) w x = m0 x" for w
    using okb room16[OF rb] by (intro store_inside[OF f1 bL]) (auto simp: block_ok_def)
  have pp: "prev_of (set_prev m y w) x = (if x = y then w else prev_of m x)"
    if "x \<in> L" "y \<in> L" for m x y w
    by (rule prev_set_prev[OF geo_room[OF geo that(1)] geo_room[OF geo that(2)] geo_far[OF geo that]])
  have pn: "prev_of (set_next m y w) x = prev_of m x"
    if "x \<in> L" "y \<in> L" for m x y w
    by (rule prev_set_next[OF geo_room[OF geo that(1)] geo_room[OF geo that(2)] geo_far[OF geo that]])
  have nn: "next_of (set_next m y w) x = (if x = y then w else next_of m x)"
    if "x \<in> L" "y \<in> L" for m x y w
    by (rule next_set_next[OF geo_room[OF geo that(1)] geo_room[OF geo that(2)] geo_far[OF geo that]])
  have np: "next_of (set_prev m y w) x = next_of m x"
    if "x \<in> L" "y \<in> L" for m x y w
    by (rule next_set_prev[OF geo_room[OF geo that(1)] geo_room[OF geo that(2)] geo_far[OF geo that]])
  have "frame_inv L m0 (mem (add_block s b))"
  proof (cases "head s = 0")
    case True
    have mm: "mem (add_block s b) = set_next (set_prev (mem s) b 0) b 0"
      by (simp add: add_block_mem True)
    have lk: "prev_of (mem (add_block s b)) v = (if v = b then 0 else prev_of (mem s) v) \<and>
          next_of (mem (add_block s b)) v = (if v = b then 0 else next_of (mem s) v)"
      if v: "v \<in> L" for v
      using v bL by (simp add: mm pp pn nn np)
    have "(prev_of (mem (add_block s b)) v = 0 \<or> prev_of (mem (add_block s b)) v \<in> L) \<and>
          (next_of (mem (add_block s b)) v = 0 \<or> next_of (mem (add_block s b)) v \<in> L)"
      if v: "v \<in> L" for v
    proof (cases "v = b")
      case True
      with lk[OF v] show ?thesis by simp
    next
      case False
      with LD[OF v] cl FL lk[OF v] show ?thesis by auto
    qed
    with f2[of 0] show ?thesis
      by (simp add: frame_inv_def mm set_prev_def set_next_def)
  next
    case False
    with hd have hF: "head s \<in> F" by simp
    then have hL: "head s \<in> L" by (rule FL)
    have hb: "head s \<noteq> b" using hF bF by auto
    have rh: "room (head s)" by (rule geo_room[OF geo hL])
    have okh: "block_ok m0 (head s)" by (rule geo_ok[OF geo hL])
    have mm: "mem (add_block s b) = set_prev (set_next (set_prev (mem s) b 0) b (head s)) (head s) b"
      by (simp add: add_block_mem False)
    have f3: "\<forall>x. (\<forall>u\<in>L. \<not> in_block m0 u x) \<longrightarrow>
              store64 (store64 (store64 (mem s) (b + 8) 0) (b + 16) (head s)) (head s + 8) b x = m0 x"
      using okh room8[OF rh] by (intro store_inside[OF f2 hL]) (auto simp: block_ok_def)
    have lk: "prev_of (mem (add_block s b)) v =
            (if v = head s then b else if v = b then 0 else prev_of (mem s) v) \<and>
          next_of (mem (add_block s b)) v = (if v = b then head s else next_of (mem s) v)"
      if v: "v \<in> L" for v
      using v hL bL by (simp add: mm pp pn nn np)
    have "(prev_of (mem (add_block s b)) v = 0 \<or> prev_of (mem (add_block s b)) v \<in> L) \<and>
          (next_of (mem (add_block s b)) v = 0 \<or> next_of (mem (add_block s b)) v \<in> L)"
      if v: "v \<in> L" for v
    proof (cases "v = b")
      case True
      with lk[OF v] hL bL show ?thesis by simp
    next
      case False
      with LD[OF v] cl FL lk[OF v] bL show ?thesis by auto
    qed
    with f3 show ?thesis
      by (simp add: frame_inv_def mm set_prev_def set_next_def)
  qed
  then show ?thesis by (simp add: L_def)
qed

lemma inv_coalesce:
  assumes geo: "geometry L m0" and inv: "frame_inv L m0 (mem s1)" and bL: "b \<in> L"
    and szb: "get_size (mem s1) b = get_size m0 b"
    and pv: "prev = 0 \<or> (get_size (mem s1) prev = get_size m0 prev \<and> prev + get_size m0 prev = b \<and>
                          (\<not> is_allocated (mem s1) prev \<longrightarrow> prev \<in> L))"
    and nx: "next = 0 \<or> (get_size (mem s1) next = get_size m0 next \<and> next = b + get_size m0 b \<and>
                          (\<not> is_allocated (mem s1) next \<longrightarrow> next \<in> L))"
  shows "frame_inv L m0 (mem (coalesce_helper s1 prev b next))"
proof -
  define m where "m = mem s1"
  have szb': "get_size m b = get_size m0 b" using szb by (simp add: m_def)
  consider (both) "prev \<noteq> 0" "next \<noteq> 0" "\<not> is_allocated m prev" "\<not> is_allocated m next"
    | (left) "prev \<noteq> 0" "\<not> is_allocated m prev" "\<not> (next \<noteq> 0 \<and> \<not> is_allocated m next)"
    | (right) "next \<noteq> 0" "\<not> is_allocated m next" "\<not> (prev \<noteq> 0 \<and> \<not> is_allocated m prev)"
    | (none) "\<not> (prev \<noteq> 0 \<and> \<not> is_allocated m prev)" "\<not> (next \<noteq> 0 \<and> \<not> is_allocated m next)"
    by blast
  then show ?thesis
  proof cases
    case both
    with pv nx have pL: "prev \<in> L" and nL: "next \<in> L"
      and e: "get_size m prev = get_size m0 prev" "get_size m next = get_size m0 next"
             "prev + get_size m0 prev = b" "next = b + get_size m0 b"
      by (auto simp: m_def)
    define T where "T = get_size m prev + get_size m b + get_size m next"
    have ft: "prev + T - 8 = next + get_size m0 next - 8"
    proof -
      have "prev + T = (prev + get_size m0 prev) + get_size m0 b + get_size m0 next"
        unfolding T_def e(1) e(2) szb' by (simp only: add.assoc)
      also have "\<dots> = b + get_size m0 b + get_size m0 next"
        by (simp only: e(3))
      also have "\<dots> = next + get_size m0 next"
        by (simp only: e(4)[symmetric])
      finally show ?thesis by simp
    qed
    define sa where "sa = s1\<lparr>mem := set_header m prev T False\<rparr>"
    have ia: "frame_inv L m0 (mem sa)"
      using inv_set_header[OF geo inv[unfolded m_def[symmetric]] pL nL ft] by (simp add: sa_def)
    have ib: "frame_inv L m0 (mem (remove_block sa next))"
      by (rule inv_remove_block[OF geo ia nL])
    have ic: "frame_inv L m0 (mem (remove_block (remove_block sa next) b))"
      by (rule inv_remove_block[OF geo ib bL])
    have "mem (coalesce_helper s1 prev b next) = mem (remove_block (remove_block sa next) b)"
      using both by (simp add: coalesce_helper_def Let_def m_def[symmetric] sa_def T_def)
    with ic show ?thesis by simp
  next
    case left
    with pv have pL: "prev \<in> L"
      and e: "get_size m prev = get_size m0 prev" "prev + get_size m0 prev = b"
      by (auto simp: m_def)
    define T where "T = get_size m prev + get_size m b"
    have ft: "prev + T - 8 = b + get_size m0 b - 8"
    proof -
      have "prev + T = (prev + get_size m0 prev) + get_size m0 b"
        unfolding T_def e(1) szb' by (simp only: add.assoc)
      also have "\<dots> = b + get_size m0 b"
        by (simp only: e(2))
      finally show ?thesis by simp
    qed
    define sa where "sa = s1\<lparr>mem := set_header m prev T False\<rparr>"
    have ia: "frame_inv L m0 (mem sa)"
      using inv_set_header[OF geo inv[unfolded m_def[symmetric]] pL bL ft] by (simp add: sa_def)
    have ib: "frame_inv L m0 (mem (remove_block sa b))"
      by (rule inv_remove_block[OF geo ia bL])
    have "mem (coalesce_helper s1 prev b next) = mem (remove_block sa b)"
      using left by (auto simp: coalesce_helper_def Let_def m_def[symmetric] sa_def T_def)
    with ib show ?thesis by simp
  next
    case right
    with nx have nL: "next \<in> L"
      and e: "get_size m next = get_size m0 next" "next = b + get_size m0 b"
      by (auto simp: m_def)
    define T where "T = get_size m b + get_size m next"
    have ft: "b + T - 8 = next + get_size m0 next - 8"
    proof -
      have "b + T = (b + get_size m0 b) + get_size m0 next"
        unfolding T_def e(1) szb' by (simp only: add.assoc)
      also have "\<dots> = next + get_size m0 next"
        by (simp only: e(2)[symmetric])
      finally show ?thesis by simp
    qed
    define sa where "sa = s1\<lparr>mem := set_header m b T False\<rparr>"
    have ia: "frame_inv L m0 (mem sa)"
      using inv_set_header[OF geo inv[unfolded m_def[symmetric]] bL nL ft] by (simp add: sa_def)
    have ib: "frame_inv L m0 (mem (remove_block sa next))"
      by (rule inv_remove_block[OF geo ia nL])
    have "mem (coalesce_helper s1 prev b next) = mem (remove_block sa next)"
      using right by (auto simp: coalesce_helper_def Let_def m_def[symmetric] sa_def T_def)
    with ib show ?thesis by simp
  next
    case none
    have ft: "b + get_size m b - 8 = b + get_size m0 b - 8"
      by (simp only: szb')
    have ia: "frame_inv L m0 (set_header m b (get_size m b) False)"
      by (rule inv_set_header[OF geo inv[unfolded m_def[symmetric]] bL bL ft])
    have "mem (coalesce_helper s1 prev b next) = set_header m b (get_size m b) False"
      using none by (auto simp: coalesce_helper_def Let_def m_def[symmetric])
    with ia show ?thesis by simp
  qed
qed

lemma dll_closed:
  assumes "dll m 0 p fl" "v \<in> set fl"
  shows "(prev_of m v = 0 \<or> prev_of m v \<in> set fl) \<and> (next_of m v = 0 \<or> next_of m v \<in> set fl)"
  using dll_prev_in[OF assms] dll_next_in[OF assms] by auto

lemma dll_head_in: "dll m pr p fl \<Longrightarrow> p = 0 \<or> p \<in> set fl"
  by (cases fl) auto

lemma free_inv:
  assumes wf: "heap_wf s bs fl" and b: "b \<in> set bs" and al: "is_allocated (mem s) b"
  shows "frame_inv (insert b (set fl)) (mem s) (mem (mm_free s (payload b)))"
    and "geometry (insert b (set bs)) (mem s)"
proof -
  define m0 where "m0 = mem s"
  define L where "L = insert b (set fl)"
  from wf have ne: "bs \<noteq> []" and first: "mm_heap_first s = hd bs" and last: "mm_heap_last s = last bs"
    and lay: "layout m0 (hd bs) bs" and d: "dll m0 0 (head s) fl"
    and fl: "set fl = set (filter (\<lambda>b. \<not> is_allocated m0 b) bs)"
    by (auto simp: heap_wf_def m0_def)
  have ok: "block_ok m0 u" and foot: "footer_of m0 u = get_size m0 u" if "u \<in> set bs" for u
    using layout_block_ok[OF lay that] by auto
  have ap: "u = v \<or> apart m0 u v" if "u \<in> set bs" "v \<in> set bs" for u v
    by (rule layout_apart[OF lay that])
  have geoB: "geometry (set bs) m0"
    using ok ap by (auto simp: geometry_def)
  then show "geometry (insert b (set bs)) (mem s)"
    using b by (simp add: insert_absorb m0_def)
  have Fbs: "v \<in> set bs \<and> \<not> is_allocated m0 v" if "v \<in> set fl" for v
    using that fl by auto
  have Lbs: "v \<in> set bs" if "v \<in> L" for v
    using that Fbs b by (auto simp: L_def)
  have geo: "geometry L m0"
    using ok ap Lbs by (auto simp: geometry_def)
  have bF: "b \<notin> set fl" using Fbs al by (auto simp: m0_def)
  have bL: "b \<in> L" by (simp add: L_def)
  have cl: "\<forall>v\<in>set fl. (prev_of (mem s) v = 0 \<or> prev_of (mem s) v \<in> set fl) \<and>
                    (next_of (mem s) v = 0 \<or> next_of (mem s) v \<in> set fl)"
    using dll_closed[OF d] by (simp add: m0_def)
  have hd: "head s = 0 \<or> head s \<in> set fl" by (rule dll_head_in[OF d])
  define s1 where "s1 = add_block s b"
  have inv1: "frame_inv L m0 (mem s1)"
    unfolding s1_def L_def
    by (rule inv_add_block[OF geo[unfolded L_def] bF cl hd]) (simp add: m0_def)
  have rb: "room b" by (rule geo_room[OF geo bL])
  have rh: "head s = 0 \<or> room (head s)"
    using hd geo_room[OF geo] by (auto simp: L_def)
  have keep: "load64 (mem s1) c = load64 m0 c"
    if u: "u \<in> set bs" and c: "c = u \<or> c = u + get_size m0 u - 8" for u c
  proof -
    have oku: "block_ok m0 u" by (rule ok[OF u])
    have uc: "unat c = unat u \<or> unat c = unat u + unat (get_size m0 u) - 8"
      using c block_footer_addr[OF oku] by auto
    have miss: "unat c + 8 \<le> unat v + 8 \<or> unat v + 24 \<le> unat c" if v: "v \<in> set bs" for v
    proof (cases "v = u")
      case True
      with uc oku show ?thesis by (auto simp: block_ok_def)
    next
      case False
      with ap[OF v u] ok[OF v] oku uc show ?thesis
        by (auto simp: apart_def block_ok_def)
    qed
    have 1: "unat c + 8 \<le> 2 ^ 64" using uc oku by (auto simp: block_ok_def)
    have 2: "unat c + 8 \<le> unat b + 8 \<or> unat b + 24 \<le> unat c" by (rule miss[OF b])
    have 3: "head s = 0 \<or> unat c + 8 \<le> unat (head s) + 8 \<or> unat (head s) + 16 \<le> unat c"
      using hd miss Fbs by fastforce
    show ?thesis
      unfolding s1_def m0_def by (rule add_block_load[OF rb rh 1 2 3])
  qed
  have hdr: "get_size (mem s1) u = get_size m0 u" "is_allocated (mem s1) u = is_allocated m0 u"
    if u: "u \<in> set bs" for u
    using keep[OF u, of u] by (simp_all add: get_size_def is_allocated_def)
  define prev where "prev = (if b \<noteq> mm_heap_first s1 then b - load64 (mem s1) (b - 8) else 0)"
  define nxt where "nxt = (if b \<noteq> mm_heap_last s1 then b + get_size (mem s1) b else 0)"
  have pv: "prev = 0 \<or> (get_size (mem s1) prev = get_size m0 prev \<and> prev + get_size m0 prev = b \<and>
                          (\<not> is_allocated (mem s1) prev \<longrightarrow> prev \<in> L))"
  proof (cases "b = hd bs")
    case True
    then show ?thesis by (simp add: prev_def s1_def first)
  next
    case False
    from layout_prev[OF lay b False] obtain q where q: "q \<in> set bs" "q + get_size m0 q = b"
      by auto
    have "b - 8 = q + get_size m0 q - 8" using q(2) by simp
    then have "load64 (mem s1) (b - 8) = load64 m0 (q + get_size m0 q - 8)"
      using keep[OF q(1), of "b - 8"] by simp
    also have "\<dots> = get_size m0 q"
      using foot[OF q(1)] by (simp add: footer_of_def sizeof_footer_def)
    finally have "prev = b - get_size m0 q"
      using False by (simp add: prev_def s1_def first)
    also have "\<dots> = q" using q(2) by auto
    finally have pq: "prev = q" .
    have "\<not> is_allocated (mem s1) q \<longrightarrow> q \<in> L"
      using hdr(2)[OF q(1)] q(1) fl by (auto simp: L_def)
    with pq q hdr(1)[OF q(1)] show ?thesis by simp
  qed
  have nx: "nxt = 0 \<or> (get_size (mem s1) nxt = get_size m0 nxt \<and> nxt = b + get_size m0 b \<and>
                          (\<not> is_allocated (mem s1) nxt \<longrightarrow> nxt \<in> L))"
  proof (cases "b = last bs")
    case True
    then show ?thesis by (simp add: nxt_def s1_def last)
  next
    case False
    have r: "b + get_size m0 b \<in> set bs" by (rule layout_next[OF lay b False])
    have nr: "nxt = b + get_size m0 b"
      using False hdr(1)[OF b] by (simp add: nxt_def s1_def last)
    have "\<not> is_allocated (mem s1) (b + get_size m0 b) \<longrightarrow> b + get_size m0 b \<in> L"
      using hdr(2)[OF r] r fl by (auto simp: L_def)
    with nr hdr(1)[OF r] show ?thesis by simp
  qed
  have inv2: "frame_inv L m0 (mem (coalesce_helper s1 prev b nxt))"
    by (rule inv_coalesce[OF geo inv1 bL hdr(1)[OF b] pv nx])
  have pb: "unat (payload b) = unat b + 8"
    using rb by (simp add: payload_def room8)
  then have p0: "payload b \<noteq> 0"
    by (auto simp: unat_eq_zero[symmetric] simp del: unat_eq_zero)
  have "mm_free s (payload b) = coalesce_helper s1 prev b nxt"
    unfolding prev_def nxt_def s1_def using p0
    by (simp add: mm_free_def Let_def block_from_payload_def payload_def)
  with inv2 show "frame_inv (insert b (set fl)) (mem s) (mem (mm_free s (payload b)))"
    by (simp add: L_def m0_def)
qed

subsection \<open>The concrete heaps\<close>

lemma heap_image_Cons: "heap_image ((a, v) # ws) = store64 (heap_image ws) a v"
  by (simp add: heap_image_def)

lemma heap_image_Nil: "heap_image [] = (\<lambda>_. 0)"
  by (simp add: heap_image_def)

lemma load_image_Nil: "load64 (heap_image []) c = 0"
  by (simp add: heap_image_Nil load64_def)

lemma load_image_same: "load64 (heap_image ((a, v) # ws)) a = v"
  by (simp add: heap_image_Cons)

lemma load_image_lt:
  "unat a + 8 \<le> unat c \<Longrightarrow> unat c + 8 \<le> 2 ^ 64 \<Longrightarrow>
   load64 (heap_image ((a, v) # ws)) c = load64 (heap_image ws) c"
  by (simp add: heap_image_Cons load_store_lt)

lemma load_image_gt:
  "unat c + 8 \<le> unat a \<Longrightarrow> unat a + 8 \<le> 2 ^ 64 \<Longrightarrow>
   load64 (heap_image ((a, v) # ws)) c = load64 (heap_image ws) c"
  by (simp add: heap_image_Cons load_store_gt)

lemmas run = heap_one_def mm_init_def fresh_region_def heap_image_Nil[symmetric]
  mm_malloc_def need_def round_up_def sizeof_block_def sizeof_footer_def ALIGNMENT_def
  find_fit_def find_fit_from.simps extend_def mem_sbrk_def payload_def set_header_def Let_def
  place_def splits_def split_helper_def
  mm_free_def add_block_def remove_block_def coalesce_helper_def block_from_payload_def
  get_size_def is_allocated_def prev_of_def next_of_def set_prev_def set_next_def
  heap_image_Cons[symmetric] load_image_Nil load_image_same load_image_lt load_image_gt

lemma one_free_block_reached:
  "(case heap_one 4096 48 of None \<Rightarrow> None | Some (s, p) \<Rightarrow> Some (mm_free s p)) =
   Some one_free_block"
  by (simp add: one_free_block_def run)

lemma two_free_blocks_reached:
  "map_option (\<lambda>(s5, c). mm_free s5 c)
     (case heap_one 4096 16 of None \<Rightarrow> None | Some (s1, a) \<Rightarrow>
      (case mm_malloc s1 16 of None \<Rightarrow> None | Some (s2, b) \<Rightarrow>
       (case mm_malloc s2 48 of None \<Rightarrow> None | Some (s3, c) \<Rightarrow>
        (case mm_malloc s3 16 of None \<Rightarrow> None | Some (s4, d) \<Rightarrow>
           Some (mm_free s4 a, c))))) =
   Some two_free_blocks"
proof -
  have 1: "(case heap_one 4096 16 of None \<Rightarrow> None | Some (s1, a) \<Rightarrow>
      (case mm_malloc s1 16 of None \<Rightarrow> None | Some (s2, b) \<Rightarrow>
       (case mm_malloc s2 48 of None \<Rightarrow> None | Some (s3, c) \<Rightarrow>
        (case mm_malloc s3 16 of None \<Rightarrow> None | Some (s4, d) \<Rightarrow>
           Some (mm_free s4 a, c))))) =
     Some (\<lparr>mem = heap_image
          [(4128, 32), (4104, 32), (4120, 0), (4112, 0), (4256, 32),
           (4232, 33), (4224, 64), (4168, 65), (4160, 32), (4136, 33),
           (4128, 32), (4104, 33)],
        head = 4104, mm_heap_first = 4104, mm_heap_last = 4232,
        mem_brk = 4264, mem_max_addr = 8192\<rparr>, 4176)"
    by (simp add: run)
  have 2: "mm_free \<lparr>mem = heap_image
          [(4128, 32), (4104, 32), (4120, 0), (4112, 0), (4256, 32),
           (4232, 33), (4224, 64), (4168, 65), (4160, 32), (4136, 33),
           (4128, 32), (4104, 33)],
        head = 4104, mm_heap_first = 4104, mm_heap_last = 4232,
        mem_brk = 4264, mem_max_addr = 8192\<rparr> 4176 = two_free_blocks"
    by (simp add: two_free_blocks_def run)
  show ?thesis
    by (simp only: 1 option.map prod.case 2)
qed

section \<open>Properties\<close>

subsection \<open>Splitting\<close>

text \<open>
  C1, as stated, fails: after \<^verbatim>\<open>mm_init(); p = mm_malloc(48); mm_free(p);\<close> the
  free list holds one block of 64 bytes at 4104. \<^verbatim>\<open>mm_malloc(16)\<close> needs 32
  bytes and finds that block. Its size is not greater than the need plus the minimum
  block size (32 + 32), and yet the block is split: the low 32 bytes are returned
  allocated and the high 32 bytes are a free block at the head of the free list.
\<close>

theorem split_at_exact_minimum_remainder:
  "(case heap_one 4096 48 of None \<Rightarrow> False | Some (s0, p) \<Rightarrow>
      let s = mm_free s0 p in
        find_fit s (need 16) = Some 4104 \<and> get_size (mem s) 4104 = 64 \<and> need 16 = 32 \<and>
        \<not> (need 16 + minimum_block_size < get_size (mem s) 4104) \<and>
        (case mm_malloc s 16 of None \<Rightarrow> False | Some (s', q) \<Rightarrow>
           q = payload 4104 \<and> get_size (mem s') 4104 = need 16 \<and> is_allocated (mem s') 4104 \<and>
           head s' = 4104 + need 16 \<and> get_size (mem s') (4104 + need 16) = 64 - need 16 \<and>
           \<not> is_allocated (mem s') (4104 + need 16)))"
  by code_simp

text \<open>
  C1, amended: when \<^verbatim>\<open>mm_malloc(n)\<close> finds a free block of at least the needed
  size on a well-formed free list, it splits the block if and only if the block's
  size is strictly greater than need + header + footer (need + 16), which for sizes
  that are multiples of the alignment is: at least need + the minimum block size.
  When it splits, the low part is the allocated block of size need, and the high part
  is a free block of size block.size - need at the head of the free list. Otherwise
  the whole block is allocated with its size unchanged, and the free list is the old
  one without it.
\<close>

theorem split_threshold:
  assumes "free_list_wf s fl"
    and "find (\<lambda>x. need_unbounded n \<le> unat (get_size (mem s) x)) fl = Some b"
  shows "\<exists>s'. mm_malloc s n = Some (s', payload b) \<and>
           ((unat (need n) + unat sizeof_block + unat sizeof_footer < unat (get_size (mem s) b)) =
            (unat (need n) + unat minimum_block_size \<le> unat (get_size (mem s) b))) \<and>
           (if unat (need n) + unat sizeof_block + unat sizeof_footer < unat (get_size (mem s) b)
            then get_size (mem s') b = need n \<and> is_allocated (mem s') b \<and>
                 footer_of (mem s') b = need n \<and>
                 get_size (mem s') (b + need n) = get_size (mem s) b - need n \<and>
                 \<not> is_allocated (mem s') (b + need n) \<and>
                 footer_of (mem s') (b + need n) = get_size (mem s) b - need n \<and>
                 head s' = b + need n \<and>
                 dll (mem s') 0 (head s') ((b + need n) # remove1 b fl)
            else get_size (mem s') b = get_size (mem s) b \<and> is_allocated (mem s') b \<and>
                 footer_of (mem s') b = get_size (mem s) b \<and>
                 dll (mem s') 0 (head s') (remove1 b fl))"
proof -
  note f = fit_found[OF assms]
  have ok: "block_ok (mem s) b" by (rule wf_block[OF assms(1) f(1)])
  have nd: "16 \<le> unat (need n)" "unat (need n) mod 16 = 0"
    using need_unbounded_props[of n] by (simp_all add: f(2))
  have zb: "unat (get_size (mem s) b) mod 16 = 0"
    using ok by (simp add: block_ok_def)
  have eq: "(unat (need n) + 16 < unat (get_size (mem s) b)) =
            (unat (need n) + 32 \<le> unat (get_size (mem s) b))"
    using step16[OF nd(2) zb] by auto
  show ?thesis
  proof (cases "unat (need n) + 16 < unat (get_size (mem s) b)")
    case True
    note p = place_split[OF assms(1) f(1) nd True]
    from True eq have le: "unat (need n) + 32 \<le> unat (get_size (mem s) b)" by simp
    have d: "unat (get_size (mem s) b - need n) = unat (get_size (mem s) b) - unat (need n)"
      using f(3) by (intro unat_minus)
    have dm: "unat (get_size (mem s) b - need n) mod 16 = 0"
      using d nd(2) zb f(3) by (simp add: mod_eq_0_iff_dvd)
    have g1: "get_size (mem (place s b (need n))) b = need n"
      using header_allocated[OF p(1) nd(2)] by simp
    have g2: "get_size (mem (place s b (need n))) (b + need n) = get_size (mem s) b - need n"
      using header_free[OF p(3) dm] by simp
    have "footer_of (mem (place s b (need n))) b = need n"
      by (simp add: footer_of_def g1 sizeof_footer_def p)
    moreover have "footer_of (mem (place s b (need n))) (b + need n) = get_size (mem s) b - need n"
      by (simp add: footer_of_def g2 sizeof_footer_def p)
    moreover have "is_allocated (mem (place s b (need n))) b"
      using header_allocated[OF p(1) nd(2)] by simp
    moreover have "\<not> is_allocated (mem (place s b (need n))) (b + need n)"
      using header_free[OF p(3) dm] by simp
    ultimately show ?thesis
      using True eq g1 g2 p(5,6)
      by (simp add: f(4) sizeof_block_def sizeof_footer_def minimum_block_size_eq)
  next
    case False
    note p = place_whole[OF assms(1) f(1) f(3) False]
    have g1: "get_size (mem (place s b (need n))) b = get_size (mem s) b"
      using header_allocated[OF p(1) zb] by simp
    have "footer_of (mem (place s b (need n))) b = get_size (mem s) b"
      by (simp add: footer_of_def g1 sizeof_footer_def p)
    moreover have "is_allocated (mem (place s b (need n))) b"
      using header_allocated[OF p(1) zb] by simp
    ultimately show ?thesis
      using False eq g1 p(4)
      by (simp add: f(4) sizeof_block_def sizeof_footer_def minimum_block_size_eq)
  qed
qed

text \<open>The one free block of 64 bytes and a request of 16 bytes: need is 32, the block is split.\<close>

theorem split_threshold_witness:
  "free_list_wf one_free_block [4104] \<and>
   find (\<lambda>x. need_unbounded 16 \<le> unat (get_size (mem one_free_block) x)) [4104] = Some 4104 \<and>
   (\<exists>s'. mm_malloc one_free_block 16 = Some (s', payload 4104) \<and>
      get_size (mem s') 4104 = 32 \<and> is_allocated (mem s') 4104 \<and>
      get_size (mem s') 4136 = 32 \<and> \<not> is_allocated (mem s') 4136 \<and> head s' = 4136)"
proof -
  have h: "load64 (mem one_free_block) 4104 = 64"
    "load64 (mem one_free_block) (4104 + 8) = 0" "load64 (mem one_free_block) (4104 + 16) = 0"
    by (simp_all add: two_free_blocks_def one_free_block_def load_image_Nil load_image_same load_image_lt load_image_gt)
  have hd: "head one_free_block = 4104" by (simp add: one_free_block_def)
  have 1: "free_list_wf one_free_block [4104]"
    using h hd
    by (simp add: free_list_wf_def block_ok_def apart_def get_size_def is_allocated_def prev_of_def next_of_def)
  have 2: "find (\<lambda>x. need_unbounded 16 \<le> unat (get_size (mem one_free_block) x)) [4104] = Some 4104"
    using h by (simp add: need_unbounded_def get_size_def)
  have 3: "need 16 = 32"
    by (simp add: need_def round_up_def sizeof_block_def sizeof_footer_def ALIGNMENT_def)
  have 4: "get_size (mem one_free_block) 4104 = 64"
    using h by (simp add: get_size_def)
  from split_threshold[OF 1 2] 1 2 show ?thesis
    by (auto simp: 3 4 sizeof_block_def sizeof_footer_def)
qed

subsection \<open>Resize when the allocation fails\<close>

text \<open>
  C2 on a region of 40 bytes, all used by \<^verbatim>\<open>mm_init(); p = mm_malloc(16);\<close>:
  \<^verbatim>\<open>mm_malloc(64)\<close> returns \<^verbatim>\<open>NULL\<close>, and \<^verbatim>\<open>mm_realloc(p, 64)\<close> does
  not return \<^verbatim>\<open>NULL\<close> with the old block intact: it goes on to copy the old
  payload to \<^verbatim>\<open>NULL\<close>.
\<close>

theorem realloc_on_exhausted_region:
  "(case heap_one 40 16 of None \<Rightarrow> False | Some (s, p) \<Rightarrow>
      p = 4112 \<and> is_allocated (mem s) (block_from_payload p) \<and>
      map_option snd (mm_malloc s 64) = Some 0 \<and>
      (case mm_realloc s p 64 of Some (Inl Segfault) \<Rightarrow> True | _ \<Rightarrow> False))"
  by code_simp

subsection \<open>Adjacent free blocks\<close>

text \<open>
  C3 after \<^verbatim>\<open>mm_init(); a = mm_malloc(0); b = mm_malloc(16); c = mm_malloc(16);
  mm_free(a);\<close>: the block of \<open>a\<close> has 16 bytes, so the \<^verbatim>\<open>next\<close> link that
  \<^verbatim>\<open>add_block\<close> writes into it lands on the header of the block of \<open>b\<close>.
  When \<^verbatim>\<open>mm_free\<close> returns, the first block of the heap is free, and the block
  that follows it, which the caller still holds, is marked free as well.
\<close>

theorem adjacent_free_after_free_of_zero_size_block:
  "(case free_of_zero_size_block of None \<Rightarrow> False | Some s \<Rightarrow>
      mm_heap_first s = 4104 \<and> get_size (mem s) 4104 = 16 \<and>
      4104 + get_size (mem s) 4104 \<le> mm_heap_last s \<and> both_free s (mm_heap_first s))"
  by code_simp

subsection \<open>Bytes copied by resize\<close>

text \<open>
  C4 after \<^verbatim>\<open>mm_init(); p = mm_malloc(16);\<close>: the block of \<open>p\<close> has 32 bytes
  and a payload of 16. \<^verbatim>\<open>mm_realloc(p, 64)\<close> copies 32 bytes, not 16: the
  footer of the old block (32) and the header that follows it (81) arrive at offsets
  16 and 24 of the new payload.
\<close>

theorem realloc_copies_block_size:
  "(case heap_one 4096 16 of None \<Rightarrow> False | Some (s, p) \<Rightarrow>
      get_size (mem s) (block_from_payload p) - sizeof_block - sizeof_footer = 16 \<and>
      (case mm_malloc s 64 of None \<Rightarrow> False | Some (s1, q) \<Rightarrow>
         copy_length (mem s1) p 64 = 32 \<and> load64 (mem s1) (q + 16) = 0 \<and> load64 (mem s1) (q + 24) = 0) \<and>
      (case mm_realloc s p 64 of Some (Inr (s', q)) \<Rightarrow>
         q = 4144 \<and> load64 (mem s') (q + 16) = 32 \<and> load64 (mem s') (q + 24) = 81 | _ \<Rightarrow> False))"
  by code_simp

subsection \<open>The size of the block for a request\<close>

text \<open>
  C5 for \<^verbatim>\<open>mm_init(); p = mm_malloc(0);\<close>: the payload is aligned, but its block
  has 16 bytes, less than the minimum block size: the size is rounded, not clamped.
\<close>

theorem malloc_zero_block_size:
  "(case heap_one 4096 0 of None \<Rightarrow> False | Some (s, p) \<Rightarrow>
      p = 4112 \<and> p AND (ALIGNMENT - 1) = 0 \<and> get_size (mem s) (block_from_payload p) = 16 \<and>
      is_allocated (mem s) (block_from_payload p) \<and> minimum_block_size = 32 \<and>
      mem_brk s = 4104 + 16)"
  by code_simp

subsection \<open>Resize to size zero\<close>

text \<open>
  C6 after \<^verbatim>\<open>mm_init(); p = mm_malloc(24);\<close>: \<^verbatim>\<open>mm_free(p)\<close> leaves the region
  at 4152 with the one block \<open>p\<close> as last block. \<^verbatim>\<open>mm_realloc(p, 0)\<close> returns
  \<^verbatim>\<open>NULL\<close> and frees \<open>p\<close>, but the region has grown by 16 bytes and the last
  block of the heap is a new allocated block at 4152 that no caller holds.
\<close>

theorem realloc_zero_grows_region:
  "(case heap_one 4096 24 of None \<Rightarrow> False | Some (s, p) \<Rightarrow>
      p = 4112 \<and> mem_brk (mm_free s p) = 4152 \<and> mm_heap_last (mm_free s p) = 4104 \<and>
      (case mm_realloc s p 0 of Some (Inr (s', q)) \<Rightarrow>
         q = 0 \<and> \<not> is_allocated (mem s') (block_from_payload p) \<and>
         mem_brk s' = 4168 \<and> mm_heap_last s' = 4152 \<and>
         is_allocated (mem s') 4152 \<and> get_size (mem s') 4152 = 16 | _ \<Rightarrow> False))"
  by code_simp

subsection \<open>Zeroed allocation when the allocation fails\<close>

text \<open>
  C7 on a region of 40 bytes, all used by \<^verbatim>\<open>mm_init(); p = mm_malloc(16);\<close>:
  \<^verbatim>\<open>mm_malloc(8)\<close> returns \<^verbatim>\<open>NULL\<close>, and \<^verbatim>\<open>mm_calloc(1, 8)\<close> does not
  return \<^verbatim>\<open>NULL\<close>: it zeroes 8 bytes at \<^verbatim>\<open>NULL\<close>.
\<close>

theorem calloc_on_exhausted_region:
  "(case heap_one 40 16 of None \<Rightarrow> False | Some (s, p) \<Rightarrow>
      map_option snd (mm_malloc s (1 * 8)) = Some 0 \<and>
      (case mm_calloc s 1 8 of Some (Inl Segfault) \<Rightarrow> True | _ \<Rightarrow> False))"
  by code_simp

subsection \<open>First fit\<close>

text \<open>
  C8 after \<^verbatim>\<open>mm_init(); a = mm_malloc(0); mm_free(a);\<close> on a fresh region: the
  freed 16-byte block at 4104 is the head of the free list and has the size that
  \<^verbatim>\<open>mm_malloc(0)\<close> needs, so \<^verbatim>\<open>find_fit\<close> returns it. Its \<^verbatim>\<open>prev\<close> field
  shares its word with the footer and reads 16, not \<^verbatim>\<open>NULL\<close>, so
  \<^verbatim>\<open>remove_block\<close> stores through the pointer 16 and leaves \<^verbatim>\<open>head\<close> as it is:
  \<^verbatim>\<open>mm_malloc(0)\<close> returns the payload of the block, marked allocated, and the
  block is still the head of the free list; the next \<^verbatim>\<open>mm_malloc(0)\<close> returns the
  same payload again. The region has not grown.
\<close>

theorem first_fit_block_stays_linked:
  "(case zero_size_block_freed of None \<Rightarrow> False | Some s \<Rightarrow>
      head s = 4104 \<and> \<not> is_allocated (mem s) 4104 \<and>
      need 0 = 16 \<and> get_size (mem s) 4104 = 16 \<and>
      find_fit s (need 0) = Some 4104 \<and>
      prev_of (mem s) 4104 = 16 \<and> next_of (mem s) 4104 = 0 \<and>
      (case mm_malloc s 0 of None \<Rightarrow> False | Some (s', p) \<Rightarrow>
         p = payload 4104 \<and> is_allocated (mem s') 4104 \<and>
         mem_brk s' = mem_brk s \<and> head s' = 4104 \<and>
         find_fit s' (need 0) = Some 4104 \<and>
         map_option snd (mm_malloc s' 0) = Some p))"
  by code_simp

subsection \<open>Resize of the null pointer to size zero\<close>




subsection \<open>What free writes\<close>

text \<open>
  C10: on a well-formed heap, where every block has at least the minimum block size,
  \<^verbatim>\<open>mm_free(p)\<close> on an allocated block changes no payload byte of any other
  allocated block. Every byte it changes lies in the freed block or in a block that
  was free before the call: in headers, footers and link words of blocks that are
  free when the call returns.
\<close>

theorem free_touches_no_other_payload:
  assumes "heap_wf s bs fl" and "b \<in> set bs" and "is_allocated (mem s) b"
    and "c \<in> set bs" and "c \<noteq> b" and "is_allocated (mem s) c" and "in_payload (mem s) c x"
  shows "mem (mm_free s (payload b)) x = mem s x \<and>
         (\<forall>y. mem (mm_free s (payload b)) y \<noteq> mem s y \<longrightarrow>
              (\<exists>u\<in>set bs. (u = b \<or> \<not> is_allocated (mem s) u) \<and> in_block (mem s) u y))"
proof -
  note inv = free_inv[OF assms(1-3)]
  from assms(1) have fl: "set fl = set (filter (\<lambda>b. \<not> is_allocated (mem s) b) bs)"
    by (simp add: heap_wf_def)
  from inv(1) have fr: "\<And>y. (\<forall>u\<in>insert b (set fl). \<not> in_block (mem s) u y) \<Longrightarrow>
       mem (mm_free s (payload b)) y = mem s y"
    by (simp add: frame_inv_def)
  have 2: "\<forall>y. mem (mm_free s (payload b)) y \<noteq> mem s y \<longrightarrow>
              (\<exists>u\<in>set bs. (u = b \<or> \<not> is_allocated (mem s) u) \<and> in_block (mem s) u y)"
  proof (intro allI impI)
    fix y assume "mem (mm_free s (payload b)) y \<noteq> mem s y"
    with fr[of y] obtain u where "u \<in> insert b (set fl)" "in_block (mem s) u y" by blast
    with fl assms(2) show "\<exists>u\<in>set bs. (u = b \<or> \<not> is_allocated (mem s) u) \<and> in_block (mem s) u y"
      by auto
  qed
  have "\<not> in_block (mem s) u x" if u: "u \<in> insert b (set fl)" for u
  proof -
    from u fl assms(2,6) have ub: "u \<in> set bs" and uc: "u \<noteq> c"
      using assms(5) by auto
    have "apart (mem s) u c"
      using geo_apart[OF inv(2), of u c] ub assms(4) uc by simp
    with assms(7) show ?thesis
      by (auto simp: apart_def in_block_def in_payload_def)
  qed
  with fr[of x] have "mem (mm_free s (payload b)) x = mem s x" by blast
  with 2 show ?thesis by simp
qed

text \<open>
  Freeing \<open>b\<close> between the two free blocks: the first payload byte of \<open>d\<close>
  keeps its value.
\<close>

theorem free_touches_no_other_payload_witness:
  "heap_wf two_free_blocks [4104, 4136, 4168, 4232] [4168, 4104] \<and>
   4136 \<in> set [4104, 4136, 4168, 4232 :: addr] \<and> is_allocated (mem two_free_blocks) 4136 \<and>
   4232 \<in> set [4104, 4136, 4168, 4232 :: addr] \<and> (4232 :: addr) \<noteq> 4136 \<and>
   is_allocated (mem two_free_blocks) 4232 \<and> in_payload (mem two_free_blocks) 4232 4240 \<and>
   mem (mm_free two_free_blocks (payload 4136)) 4240 = mem two_free_blocks 4240"
proof -
  have h: "load64 (mem two_free_blocks) 4104 = 32" "load64 (mem two_free_blocks) 4136 = 33"
    "load64 (mem two_free_blocks) 4168 = 64" "load64 (mem two_free_blocks) 4232 = 33"
    "load64 (mem two_free_blocks) 4128 = 32" "load64 (mem two_free_blocks) 4160 = 32"
    "load64 (mem two_free_blocks) 4224 = 64" "load64 (mem two_free_blocks) 4256 = 32"
    "load64 (mem two_free_blocks) 4176 = 0" "load64 (mem two_free_blocks) 4184 = 4104"
    "load64 (mem two_free_blocks) 4112 = 4168" "load64 (mem two_free_blocks) 4120 = 0"
    by (simp_all add: two_free_blocks_def one_free_block_def load_image_Nil load_image_same load_image_lt load_image_gt)
  have f: "head two_free_blocks = 4168" "mm_heap_first two_free_blocks = 4104"
    "mm_heap_last two_free_blocks = 4232"
    by (simp_all add: two_free_blocks_def)
  have g: "get_size (mem two_free_blocks) 4104 = 32" "get_size (mem two_free_blocks) 4136 = 32"
    "get_size (mem two_free_blocks) 4168 = 64" "get_size (mem two_free_blocks) 4232 = 32"
    "is_allocated (mem two_free_blocks) 4104 = False" "is_allocated (mem two_free_blocks) 4136 = True"
    "is_allocated (mem two_free_blocks) 4168 = False" "is_allocated (mem two_free_blocks) 4232 = True"
    using h by (simp_all add: get_size_def is_allocated_def)
  have 1: "heap_wf two_free_blocks [4104, 4136, 4168, 4232] [4168, 4104]"
    using h f g
    by (auto simp: heap_wf_def block_ok_def footer_of_def sizeof_footer_def prev_of_def next_of_def)
  have 2: "4136 \<in> set [4104, 4136, 4168, 4232 :: addr]" by simp
  have 3: "is_allocated (mem two_free_blocks) 4136" by (simp add: g)
  have 4: "4232 \<in> set [4104, 4136, 4168, 4232 :: addr]" by simp
  have 5: "(4232 :: addr) \<noteq> 4136" by simp
  have 6: "is_allocated (mem two_free_blocks) 4232" by (simp add: g)
  have 7: "in_payload (mem two_free_blocks) 4232 4240"
    by (simp add: in_payload_def g sizeof_block_def sizeof_footer_def)
  from free_touches_no_other_payload[OF 1 2 3 4 5 6 7] 1 2 3 4 5 6 7 show ?thesis by blast
qed

end
